theory Spec2Isabelle
  imports Main "HOL-Library.Multiset" "HOL-Library.Word"
begin

section \<open>Letter Boxed solver: the puzzle model\<close>

text \<open>
  The embedding follows \<^verbatim>\<open>letterbox.h\<close>, \<^verbatim>\<open>letterbox.cpp\<close>, \<^verbatim>\<open>word.h\<close> and
  \<^verbatim>\<open>letterboxedsolver.cpp\<close>. A \<^verbatim>\<open>char\<close> is a HOL \<open>char\<close>, a \<^verbatim>\<open>std::string\<close> a
  \<open>string\<close>. Sizes and indices (\<^verbatim>\<open>size_t\<close>, \<^verbatim>\<open>unsigned int\<close>) are natural numbers:
  the strings of this program are lines typed by a user or read from a dictionary, far
  shorter than \<open>2 ^ 31\<close> characters, so no size computation of the source wraps. The one
  place where signedness decides the result, the comparison of an \<^verbatim>\<open>int\<close> with an
  \<^verbatim>\<open>unsigned int\<close> in \<^verbatim>\<open>getNumWordsFromUser\<close>, is modelled on 32-bit words.

  Abnormal ends of the C++ program are values of the type \<open>failure\<close>: an out-of-range
  read of a \<^verbatim>\<open>std::string\<close> or a \<^verbatim>\<open>std::vector\<close> (undefined behaviour in C++) and the
  \<^verbatim>\<open>exit(0)\<close> of \<^verbatim>\<open>Word::operator[]\<close>.
\<close>

datatype failure = StringIndexOutOfRange | VectorIndexOutOfRange | WordIndexExit

definition kNumWalls :: nat where
  "kNumWalls = 4"

definition kMinWordLength :: nat where
  "kMinWordLength = 3"

text \<open>
  The class \<^verbatim>\<open>LetterBox\<close>. Each wall is allocated with \<^verbatim>\<open>new\<close> and lives until the
  destructor runs, so the wall pointers are pairwise different; a pointer is modelled by
  the position of its wall in \<^verbatim>\<open>letterWalls\<close>.
\<close>

record LetterBox =
  letterWalls :: "char list list"
  letterToWall :: "char \<rightharpoonup> nat"
  letters :: "char set"

definition emptyLetterBox :: LetterBox where
  "emptyLetterBox = \<lparr>letterWalls = [], letterToWall = Map.empty, letters = {}\<rparr>"

text \<open>
  \<^verbatim>\<open>letters[idx]\<close> on a \<^verbatim>\<open>std::string\<close>: at \<^verbatim>\<open>size()\<close> it reads the terminating null
  character, past it the read is undefined.
\<close>

definition string_at :: "string \<Rightarrow> nat \<Rightarrow> failure + char" where
  "string_at s idx =
     (if idx < length s then Inr (s ! idx)
      else if idx = length s then Inr (CHR 0x00)
      else Inl StringIndexOutOfRange)"

text \<open>
  The body of the inner loop of the constructor, for the wall \<open>wallNum\<close> under
  construction (\<open>wall\<close> is \<^verbatim>\<open>*p_wall\<close>).
\<close>

definition addLetter :: "nat \<Rightarrow> char \<Rightarrow> char list \<times> LetterBox \<Rightarrow> char list \<times> LetterBox" where
  "addLetter wallNum c = (\<lambda>(wall, lb).
     (wall @ [c],
      lb\<lparr>letters := insert c (letters lb),
         letterToWall := (if letterToWall lb c = None
                          then (letterToWall lb)(c \<mapsto> wallNum)
                          else letterToWall lb)\<rparr>))"

function fillWall :: "string \<Rightarrow> nat \<Rightarrow> nat \<Rightarrow> nat \<Rightarrow> char list \<times> LetterBox
    \<Rightarrow> failure + char list \<times> LetterBox" where
  "fillWall s lettersPerWord wallNum i st =
     (if i < lettersPerWord
      then (case string_at s (wallNum * lettersPerWord + i) of
              Inl e \<Rightarrow> Inl e
            | Inr c \<Rightarrow> fillWall s lettersPerWord wallNum (Suc i) (addLetter wallNum c st))
      else Inr st)"
  by pat_completeness auto
termination
  by (relation "measure (\<lambda>(s, lettersPerWord, wallNum, i, st). lettersPerWord - i)") auto

declare fillWall.simps [simp del]

function buildWalls :: "string \<Rightarrow> nat \<Rightarrow> nat \<Rightarrow> LetterBox \<Rightarrow> failure + LetterBox" where
  "buildWalls s lettersPerWord wallNum lb =
     (if wallNum < kNumWalls
      then (case fillWall s lettersPerWord wallNum 0 ([], lb) of
              Inl e \<Rightarrow> Inl e
            | Inr (wall, lb') \<Rightarrow>
                buildWalls s lettersPerWord (Suc wallNum)
                  (lb'\<lparr>letterWalls := letterWalls lb' @ [wall]\<rparr>))
      else Inr lb)"
  by pat_completeness auto
termination
  by (relation "measure (\<lambda>(s, lettersPerWord, wallNum, lb). kNumWalls - wallNum)") auto

declare buildWalls.simps [simp del]

text \<open>The constructor \<^verbatim>\<open>LetterBox::LetterBox(const std::string &letters)\<close>.\<close>

definition LetterBox_ctor :: "string \<Rightarrow> failure + LetterBox" where
  "LetterBox_ctor s = buildWalls s (length s div kNumWalls) 0 emptyLetterBox"

definition getLetters :: "LetterBox \<Rightarrow> char set" where
  "getLetters lb = letters lb"

definition onSameWall :: "LetterBox \<Rightarrow> char \<Rightarrow> char \<Rightarrow> bool" where
  "onSameWall lb letter1 letter2 =
     (case letterToWall lb letter1 of
        None \<Rightarrow> False
      | Some wall1 \<Rightarrow>
          (case letterToWall lb letter2 of
             None \<Rightarrow> False
           | Some wall2 \<Rightarrow> wall1 = wall2))"

definition contains :: "LetterBox \<Rightarrow> char \<Rightarrow> bool" where
  "contains lb letter = (letter \<in> letters lb)"


text \<open>
  The loop of \<^verbatim>\<open>canMakeWord\<close>, from index \<open>i\<close> on; every \<open>w ! i\<close> is read under
  \<open>i < length w\<close>.
\<close>

function canMakeWordFrom :: "LetterBox \<Rightarrow> string \<Rightarrow> nat \<Rightarrow> bool" where
  "canMakeWordFrom lb w i =
     (if i < length w
      then (if \<not> contains lb (w ! i) \<or> (i > 0 \<and> onSameWall lb (w ! (i - 1)) (w ! i))
            then False
            else canMakeWordFrom lb w (Suc i))
      else True)"
  by pat_completeness auto
termination
  by (relation "measure (\<lambda>(lb, w, i). length w - i)") auto

declare canMakeWordFrom.simps [simp del]

definition canMakeWord :: "LetterBox \<Rightarrow> string \<Rightarrow> bool" where
  "canMakeWord lb w = (if length w < kMinWordLength then False else canMakeWordFrom lb w 0)"


section \<open>Words and the word table\<close>

text \<open>
  The struct \<^verbatim>\<open>Word\<close> of \<^verbatim>\<open>word.h\<close>. Its constructor inserts every character of the
  text into a fresh \<^verbatim>\<open>unordered_set\<close> and stores the size of that set.
\<close>

record Word =
  content :: string
  nUniqueLetters :: nat

definition Word_ctor :: "string \<Rightarrow> Word" where
  "Word_ctor w = \<lparr>content = w, nUniqueLetters = card (fold insert w {})\<rparr>"

definition Word_size :: "Word \<Rightarrow> nat" where
  "Word_size w = length (content w)"

text \<open>\<^verbatim>\<open>operator==\<close> compares the text only.\<close>

definition Word_eq :: "Word \<Rightarrow> Word \<Rightarrow> bool" where
  "Word_eq lhs rhs = (content lhs = content rhs)"

text \<open>
  \<^verbatim>\<open>char operator[](int index)\<close>: an index outside the text prints a message and calls
  \<^verbatim>\<open>exit(0)\<close>.
\<close>

definition Word_at :: "Word \<Rightarrow> int \<Rightarrow> failure + char" where
  "Word_at w index =
     (if index < 0 \<or> index \<ge> int (length (content w)) then Inl WordIndexExit
      else Inr (content w ! nat index))"

text \<open>
  \<^verbatim>\<open>WordTable\<close> is an \<^verbatim>\<open>unordered_map<char, unordered_set<Word>>\<close>. A set of words is
  modelled by the list of its elements in iteration order, without two elements equal
  under \<^verbatim>\<open>operator==\<close>. The iteration order of an \<^verbatim>\<open>unordered_set\<close> is unspecified;
  the model puts a new element last, and the theorems on the search hold for every
  table with the same words under every letter, whatever their order.
\<close>

type_synonym WordTable = "char \<rightharpoonup> Word list"

type_synonym Solution = "string list"

definition insertWord :: "Word \<Rightarrow> Word list \<Rightarrow> Word list" where
  "insertWord w ws = (if \<exists>v \<in> set ws. Word_eq v w then ws else ws @ [w])"

text \<open>\<^verbatim>\<open>wordsStartingWith[c]\<close>: \<^verbatim>\<open>operator[]\<close> of the map creates an empty set for a new key.\<close>

definition wordsAt :: "WordTable \<Rightarrow> char \<Rightarrow> Word list" where
  "wordsAt t c = (case t c of None \<Rightarrow> [] | Some ws \<Rightarrow> ws)"

text \<open>
  \<^verbatim>\<open>buildFilteredWordList\<close>; the first argument is the list of the lines of the dictionary
  file (empty when the file cannot be opened).
\<close>

fun buildFilteredWordList :: "string list \<Rightarrow> LetterBox \<Rightarrow> WordTable \<Rightarrow> WordTable" where
  "buildFilteredWordList [] letterBox wordsStartingWith = wordsStartingWith"
| "buildFilteredWordList (w # rest) letterBox wordsStartingWith =
     (if \<not> canMakeWord letterBox w
      then buildFilteredWordList rest letterBox wordsStartingWith
      else buildFilteredWordList rest letterBox
             (wordsStartingWith(w ! 0 \<mapsto> insertWord (Word_ctor w) (wordsAt wordsStartingWith (w ! 0)))))"

section \<open>The search\<close>

text \<open>
  \<^verbatim>\<open>generateSolutionsRec\<close>. The state is the pair of \<^verbatim>\<open>result\<close> and \<^verbatim>\<open>solutions\<close>, both
  passed by reference and updated in place; \<^verbatim>\<open>remaining\<close> is only read (the loop works on
  a copy). \<open>generateSolutionsLoop\<close> is the \<^verbatim>\<open>for\<close> loop over the words that start with
  \<open>lastc\<close>. The write \<^verbatim>\<open>result[result.size() - nWords]\<close> is in range exactly when
  \<open>0 < nWords\<close> and \<open>nWords \<le> length result\<close>.
\<close>

fun generateSolutionsRec :: "LetterBox \<Rightarrow> nat \<Rightarrow> char \<Rightarrow> char set \<Rightarrow> WordTable
      \<Rightarrow> Solution \<times> Solution list \<Rightarrow> failure + Solution \<times> Solution list"
  and generateSolutionsLoop :: "LetterBox \<Rightarrow> nat \<Rightarrow> char set \<Rightarrow> WordTable \<Rightarrow> Word list
      \<Rightarrow> Solution \<times> Solution list \<Rightarrow> failure + Solution \<times> Solution list"
  where
  "generateSolutionsRec letterBox nWords lastc remaining wordsStartingWith (result, solutions) =
     (if nWords = 0
      then Inr (result, if remaining = {} then solutions @ [result] else solutions)
      else (case wordsStartingWith lastc of
              None \<Rightarrow> Inr (result, solutions)
            | Some ws \<Rightarrow>
                generateSolutionsLoop letterBox nWords remaining wordsStartingWith ws
                  (result, solutions)))"
| "generateSolutionsLoop letterBox nWords remaining wordsStartingWith [] st = Inr st"
| "generateSolutionsLoop letterBox nWords remaining wordsStartingWith (w # ws) (result, solutions) =
     (if nWords = 1 \<and> card remaining > nUniqueLetters w
      then generateSolutionsLoop letterBox nWords remaining wordsStartingWith ws
             (result, solutions)
      else if \<not> (0 < nWords \<and> nWords \<le> length result) then Inl VectorIndexOutOfRange
      else (case Word_at w (int (Word_size w) - 1) of
              Inl e \<Rightarrow> Inl e
            | Inr c \<Rightarrow>
                (case generateSolutionsRec letterBox (nWords - 1) c
                        (remaining - set (content w)) wordsStartingWith
                        (result[length result - nWords := content w], solutions) of
                   Inl e \<Rightarrow> Inl e
                 | Inr st' \<Rightarrow>
                     generateSolutionsLoop letterBox nWords remaining wordsStartingWith ws st')))"

declare generateSolutionsRec.simps [simp del]

text \<open>
  The same search with the test of the last word (\<^verbatim>\<open>nWords == 1 && remaining.size() >
  word.nUniqueLetters\<close>) removed, to compare with.
\<close>

fun generateSolutionsRec_noprune :: "LetterBox \<Rightarrow> nat \<Rightarrow> char \<Rightarrow> char set \<Rightarrow> WordTable
      \<Rightarrow> Solution \<times> Solution list \<Rightarrow> failure + Solution \<times> Solution list"
  and generateSolutionsLoop_noprune :: "LetterBox \<Rightarrow> nat \<Rightarrow> char set \<Rightarrow> WordTable \<Rightarrow> Word list
      \<Rightarrow> Solution \<times> Solution list \<Rightarrow> failure + Solution \<times> Solution list"
  where
  "generateSolutionsRec_noprune letterBox nWords lastc remaining wordsStartingWith
       (result, solutions) =
     (if nWords = 0
      then Inr (result, if remaining = {} then solutions @ [result] else solutions)
      else (case wordsStartingWith lastc of
              None \<Rightarrow> Inr (result, solutions)
            | Some ws \<Rightarrow>
                generateSolutionsLoop_noprune letterBox nWords remaining wordsStartingWith ws
                  (result, solutions)))"
| "generateSolutionsLoop_noprune letterBox nWords remaining wordsStartingWith [] st = Inr st"
| "generateSolutionsLoop_noprune letterBox nWords remaining wordsStartingWith (w # ws)
       (result, solutions) =
     (if \<not> (0 < nWords \<and> nWords \<le> length result) then Inl VectorIndexOutOfRange
      else (case Word_at w (int (Word_size w) - 1) of
              Inl e \<Rightarrow> Inl e
            | Inr c \<Rightarrow>
                (case generateSolutionsRec_noprune letterBox (nWords - 1) c
                        (remaining - set (content w)) wordsStartingWith
                        (result[length result - nWords := content w], solutions) of
                   Inl e \<Rightarrow> Inl e
                 | Inr st' \<Rightarrow>
                     generateSolutionsLoop_noprune letterBox nWords remaining wordsStartingWith
                       ws st')))"


declare generateSolutionsRec_noprune.simps [simp del]

text \<open>
  \<^verbatim>\<open>generateSolutions\<close> starts one thread for every letter of the box. A thread owns its
  \<^verbatim>\<open>remaining\<close> and \<^verbatim>\<open>result\<close>; the only shared object is \<^verbatim>\<open>solutions\<close>, and every
  \<^verbatim>\<open>push_back\<close> on it happens under the mutex. The search only appends to
  \<^verbatim>\<open>solutions\<close> and never reads it (\<open>generateSolutionsRec_appends\<close> below), so the sequence
  of solutions one thread pushes is what it appends to an empty vector: \<open>threadBody\<close>.
  The vector after all threads are joined is the old vector followed
  by an interleaving of these sequences, in which the pushes of one thread keep their
  order; which interleaving is up to the scheduler, so \<open>generateSolutions\<close> is a relation
  between the vector before and the vector after. A thread that ends in a \<open>failure\<close>
  ends the run without a result.
\<close>

inductive interleave :: "'a list list \<Rightarrow> 'a list \<Rightarrow> bool" where
  interleave_done: "\<forall>xs \<in> set xss. xs = [] \<Longrightarrow> interleave xss []"
| interleave_step: "i < length xss \<Longrightarrow> xss ! i = x # xs \<Longrightarrow> interleave (xss[i := xs]) out
     \<Longrightarrow> interleave xss (x # out)"

definition threadBody :: "LetterBox \<Rightarrow> nat \<Rightarrow> WordTable \<Rightarrow> char \<Rightarrow> failure + Solution list" where
  "threadBody letterBox nWords wordsStartingWith ch =
     (case generateSolutionsRec letterBox nWords ch (getLetters letterBox) wordsStartingWith
             (replicate nWords [], []) of
        Inl e \<Rightarrow> Inl e
      | Inr (result, pushed) \<Rightarrow> Inr pushed)"

inductive generateSolutions :: "LetterBox \<Rightarrow> nat \<Rightarrow> WordTable \<Rightarrow> Solution list \<Rightarrow> Solution list
    \<Rightarrow> bool" where
  generateSolutions_run:
    "set order = getLetters letterBox \<Longrightarrow> distinct order
     \<Longrightarrow> map (threadBody letterBox nWords wordsStartingWith) order = map Inr outs
     \<Longrightarrow> interleave outs merged
     \<Longrightarrow> generateSolutions letterBox nWords wordsStartingWith solutions (solutions @ merged)"

definition threadBody_noprune :: "LetterBox \<Rightarrow> nat \<Rightarrow> WordTable \<Rightarrow> char
    \<Rightarrow> failure + Solution list" where
  "threadBody_noprune letterBox nWords wordsStartingWith ch =
     (case generateSolutionsRec_noprune letterBox nWords ch (getLetters letterBox)
             wordsStartingWith (replicate nWords [], []) of
        Inl e \<Rightarrow> Inl e
      | Inr (result, pushed) \<Rightarrow> Inr pushed)"

inductive generateSolutions_noprune :: "LetterBox \<Rightarrow> nat \<Rightarrow> WordTable \<Rightarrow> Solution list
    \<Rightarrow> Solution list \<Rightarrow> bool" where
  generateSolutions_noprune_run:
    "set order = getLetters letterBox \<Longrightarrow> distinct order
     \<Longrightarrow> map (threadBody_noprune letterBox nWords wordsStartingWith) order = map Inr outs
     \<Longrightarrow> interleave outs merged
     \<Longrightarrow> generateSolutions_noprune letterBox nWords wordsStartingWith solutions
           (solutions @ merged)"

section \<open>Reading the letters and the number of words\<close>








section \<open>Auxiliary notions for the proofs\<close>

text \<open>
  The wall a letter is first seen on, the contiguous pieces of a letter string, and
  the box made of a list of walls.
\<close>

fun firstWall :: "char list list \<Rightarrow> char \<Rightarrow> nat option" where
  "firstWall [] c = None"
| "firstWall (wall # walls) c =
     (if c \<in> set wall then Some 0 else map_option Suc (firstWall walls c))"

definition wallsOf :: "string \<Rightarrow> nat \<Rightarrow> nat \<Rightarrow> char list list" where
  "wallsOf s lpw n = map (\<lambda>j. take lpw (drop (j * lpw) s)) [0..<n]"

definition noteWall :: "nat \<Rightarrow> char list \<Rightarrow> (char \<rightharpoonup> nat) \<Rightarrow> (char \<rightharpoonup> nat)" where
  "noteWall wallNum cs m =
     (\<lambda>c. case m c of Some j \<Rightarrow> Some j | None \<Rightarrow> if c \<in> set cs then Some wallNum else None)"

definition boxOf :: "char list list \<Rightarrow> LetterBox" where
  "boxOf walls =
     \<lparr>letterWalls = walls, letterToWall = firstWall walls, letters = \<Union> (set ` set walls)\<rparr>"

text \<open>
  The chains of \<open>n\<close> words of the table that start with the letter \<open>c\<close>, each word
  starting with the last letter of the word before, and that use every letter of
  \<open>remaining\<close>: what a search without any pruning has to find.
\<close>

fun wordChains :: "WordTable \<Rightarrow> nat \<Rightarrow> char \<Rightarrow> char set \<Rightarrow> Solution list" where
  "wordChains t 0 c remaining = (if remaining = {} then [[]] else [])"
| "wordChains t (Suc n) c remaining =
     concat (map (\<lambda>w. map ((#) (content w))
                         (wordChains t n (last (content w)) (remaining - set (content w))))
                 (wordsAt t c))"

definition wordChainsVia :: "WordTable \<Rightarrow> nat \<Rightarrow> char set \<Rightarrow> Word list \<Rightarrow> Solution list" where
  "wordChainsVia t n remaining ws =
     concat (map (\<lambda>w. map ((#) (content w))
                         (wordChains t n (last (content w)) (remaining - set (content w)))) ws)"

fun linked :: "WordTable \<Rightarrow> char \<Rightarrow> Solution \<Rightarrow> bool" where
  "linked t c [] = True"
| "linked t c (s # rest) = ((\<exists>w \<in> set (wordsAt t c). content w = s) \<and> linked t (last s) rest)"

text \<open>
  The outcome of a call that starts with an empty \<^verbatim>\<open>solutions\<close>, moved behind the
  solutions already there.
\<close>

definition pushedAfter :: "Solution list \<Rightarrow> failure + Solution \<times> Solution list
    \<Rightarrow> failure + Solution \<times> Solution list" where
  "pushedAfter solutions outcome =
     (case outcome of
        Inl e \<Rightarrow> Inl e
      | Inr (result, pushed) \<Rightarrow> Inr (result, solutions @ pushed))"

text \<open>A call leaves the length of \<^verbatim>\<open>result\<close> and its entries before the last \<open>n\<close> alone.\<close>

definition sameFrame :: "nat \<Rightarrow> Solution \<Rightarrow> Solution \<Rightarrow> bool" where
  "sameFrame n result result' \<longleftrightarrow>
     length result' = length result \<and>
     take (length result - n) result' = take (length result - n) result"

text \<open>
  Properties of word tables: every word is what \<open>Word_ctor\<close> makes of its text; two
  tables hold the same words under every letter, in whatever order; no word is empty;
  every word carries the number of its distinct letters.
\<close>

definition builtWords :: "WordTable \<Rightarrow> bool" where
  "builtWords t \<longleftrightarrow> (\<forall>c. \<forall>v \<in> set (wordsAt t c). v = Word_ctor (content v))"

definition sameWords :: "WordTable \<Rightarrow> WordTable \<Rightarrow> bool" where
  "sameWords t t' \<longleftrightarrow> (\<forall>c. set (wordsAt t c) = set (wordsAt t' c))"

definition wordsNonempty :: "WordTable \<Rightarrow> bool" where
  "wordsNonempty t \<longleftrightarrow> (\<forall>c. \<forall>w \<in> set (wordsAt t c). content w \<noteq> [])"

definition wordsCounted :: "WordTable \<Rightarrow> bool" where
  "wordsCounted t \<longleftrightarrow> (\<forall>c. \<forall>w \<in> set (wordsAt t c). nUniqueLetters w = card (set (content w)))"


section \<open>A small puzzle\<close>

text \<open>
  A box with the walls \<open>AB\<close>, \<open>CD\<close>, \<open>EF\<close> and \<open>GH\<close> and a dictionary of seven lines,
  on which the theorems below are tried.
\<close>

definition exampleBox :: LetterBox where
  "exampleBox = boxOf [''AB'', ''CD'', ''EF'', ''GH'']"

definition exampleDict :: "string list" where
  "exampleDict = [''ACEG'', ''GBDFH'', ''AB'', ''EGA'', ''HAC'', ''ACEGBDFH'', ''ACEG'']"

definition exampleTable :: WordTable where
  "exampleTable = buildFilteredWordList exampleDict exampleBox Map.empty"

section \<open>The word test\<close>

lemma canMakeWordFrom_iff:
  "canMakeWordFrom lb w i \<longleftrightarrow>
     (\<forall>j. i \<le> j \<and> j < length w \<longrightarrow>
        contains lb (w ! j) \<and> \<not> (j > 0 \<and> onSameWall lb (w ! (j - 1)) (w ! j)))"
proof (induction lb w i rule: canMakeWordFrom.induct)
  case (1 lb w i)
  show ?case
  proof (cases "i < length w")
    case False
    then show ?thesis by (subst canMakeWordFrom.simps) auto
  next
    case True
    let ?bad = "\<not> contains lb (w ! i) \<or> (i > 0 \<and> onSameWall lb (w ! (i - 1)) (w ! i))"
    show ?thesis
    proof (cases ?bad)
      case True
      with \<open>i < length w\<close> show ?thesis
        by (subst canMakeWordFrom.simps) auto
    next
      case False
      have "canMakeWordFrom lb w i = canMakeWordFrom lb w (Suc i)"
        using False \<open>i < length w\<close> by (subst canMakeWordFrom.simps) auto
      also have "\<dots> = (\<forall>j. Suc i \<le> j \<and> j < length w \<longrightarrow>
        contains lb (w ! j) \<and> \<not> (j > 0 \<and> onSameWall lb (w ! (j - 1)) (w ! j)))"
        using "1.IH" [OF \<open>i < length w\<close> False] .
      also have "\<dots> = (\<forall>j. i \<le> j \<and> j < length w \<longrightarrow>
        contains lb (w ! j) \<and> \<not> (j > 0 \<and> onSameWall lb (w ! (j - 1)) (w ! j)))"
        using False by (metis Suc_leI le_neq_implies_less Suc_leD)
      finally show ?thesis .
    qed
  qed
qed

lemma canMakeWord_chars:
  "canMakeWord lb w \<longleftrightarrow>
     kMinWordLength \<le> length w \<and> (\<forall>c \<in> set w. contains lb c) \<and>
     (\<forall>i. Suc i < length w \<longrightarrow> \<not> onSameWall lb (w ! i) (w ! Suc i))"
proof -
  have a: "(\<forall>j. j < length w \<longrightarrow>
        contains lb (w ! j) \<and> \<not> (j > 0 \<and> onSameWall lb (w ! (j - 1)) (w ! j)))
     \<longleftrightarrow> (\<forall>c \<in> set w. contains lb c) \<and>
          (\<forall>i. Suc i < length w \<longrightarrow> \<not> onSameWall lb (w ! i) (w ! Suc i))"
    (is "?L \<longleftrightarrow> ?R")
  proof
    assume l: ?L
    have "\<forall>c \<in> set w. contains lb c" using l by (auto simp: in_set_conv_nth)
    moreover have "\<forall>i. Suc i < length w \<longrightarrow> \<not> onSameWall lb (w ! i) (w ! Suc i)"
    proof (intro allI impI)
      fix i assume "Suc i < length w"
      with l have "\<not> (Suc i > 0 \<and> onSameWall lb (w ! (Suc i - 1)) (w ! Suc i))" by blast
      then show "\<not> onSameWall lb (w ! i) (w ! Suc i)" by simp
    qed
    ultimately show ?R by blast
  next
    assume r: ?R
    show ?L
    proof (intro allI impI conjI)
      fix j assume "j < length w"
      then show "contains lb (w ! j)" using r by simp
      show "\<not> (j > 0 \<and> onSameWall lb (w ! (j - 1)) (w ! j))"
      proof (cases j)
        case 0 then show ?thesis by simp
      next
        case (Suc k)
        with \<open>j < length w\<close> r show ?thesis by simp
      qed
    qed
  qed
  show ?thesis
    unfolding canMakeWord_def using a canMakeWordFrom_iff [of lb w 0] by auto
qed

section \<open>The constructor\<close>

lemma noteWall_Nil: "noteWall n [] m = m"
  by (auto simp: noteWall_def split: option.splits)

lemma noteWall_Cons:
  "noteWall n (c # cs) m = noteWall n cs (if m c = None then m(c \<mapsto> n) else m)"
  by (rule ext) (auto simp: noteWall_def split: option.splits)

lemma fillWall_closed:
  assumes "wallNum * lpw + lpw \<le> length s" and "i \<le> lpw"
  shows "fillWall s lpw wallNum i (wall, lb) =
           Inr (wall @ take (lpw - i) (drop (wallNum * lpw + i) s),
                lb\<lparr>letters := letters lb \<union> set (take (lpw - i) (drop (wallNum * lpw + i) s)),
                   letterToWall := noteWall wallNum (take (lpw - i) (drop (wallNum * lpw + i) s))
                                     (letterToWall lb)\<rparr>)"
  using assms(2)
proof (induction "lpw - i" arbitrary: i wall lb)
  case 0
  then have "i = lpw" by simp
  then show ?case
    by (subst fillWall.simps) (simp add: noteWall_Nil)
next
  case (Suc d)
  let ?k = "wallNum * lpw + i"
  from Suc.hyps(2) have lt: "i < lpw" by simp
  with assms(1) have k: "?k < length s" by simp
  have d: "d = lpw - Suc i" using Suc.hyps(2) by simp
  have chunk: "take (lpw - i) (drop ?k s) = s ! ?k # take (lpw - Suc i) (drop (Suc ?k) s)"
  proof -
    have "lpw - i = Suc (lpw - Suc i)" using lt by simp
    moreover have "drop ?k s = s ! ?k # drop (Suc ?k) s"
      using k by (simp add: Cons_nth_drop_Suc)
    ultimately show ?thesis by simp
  qed
  obtain wall1 lb1 where st1: "addLetter wallNum (s ! ?k) (wall, lb) = (wall1, lb1)"
    by (cases "addLetter wallNum (s ! ?k) (wall, lb)")
  then have w1: "wall1 = wall @ [s ! ?k]"
    and lb1: "lb1 = lb\<lparr>letters := insert (s ! ?k) (letters lb),
         letterToWall := (if letterToWall lb (s ! ?k) = None
                          then (letterToWall lb)(s ! ?k \<mapsto> wallNum)
                          else letterToWall lb)\<rparr>"
    by (auto simp: addLetter_def)
  have "fillWall s lpw wallNum i (wall, lb) = fillWall s lpw wallNum (Suc i) (wall1, lb1)"
    using lt k st1 by (subst fillWall.simps) (simp add: string_at_def)
  also have "\<dots> = Inr (wall1 @ take (lpw - Suc i) (drop (wallNum * lpw + Suc i) s),
                lb1\<lparr>letters := letters lb1 \<union> set (take (lpw - Suc i) (drop (wallNum * lpw + Suc i) s)),
                   letterToWall := noteWall wallNum (take (lpw - Suc i) (drop (wallNum * lpw + Suc i) s))
                                     (letterToWall lb1)\<rparr>)"
    using Suc.hyps(1) [OF d] lt by simp
  also have "\<dots> = Inr (wall @ take (lpw - i) (drop ?k s),
                lb\<lparr>letters := letters lb \<union> set (take (lpw - i) (drop ?k s)),
                   letterToWall := noteWall wallNum (take (lpw - i) (drop ?k s))
                                     (letterToWall lb)\<rparr>)"
    unfolding chunk noteWall_Cons w1 lb1 by simp
  finally show ?case .
qed

lemma firstWall_snoc:
  "firstWall (walls @ [wall]) = noteWall (length walls) wall (firstWall walls)"
proof (induction walls)
  case Nil
  show ?case by (rule ext) (simp add: noteWall_def)
next
  case (Cons a walls)
  show ?case
    by (rule ext) (auto simp: Cons noteWall_def split: option.splits)
qed

lemma wallsOf_Suc: "wallsOf s lpw (Suc n) = wallsOf s lpw n @ [take lpw (drop (n * lpw) s)]"
  by (simp add: wallsOf_def)

lemma length_wallsOf: "length (wallsOf s lpw n) = n"
  by (simp add: wallsOf_def)

lemma buildWalls_closed:
  assumes "kNumWalls * lpw \<le> length s" and "wallNum \<le> kNumWalls"
  shows "buildWalls s lpw wallNum (boxOf (wallsOf s lpw wallNum)) =
           Inr (boxOf (wallsOf s lpw kNumWalls))"
  using assms(2)
proof (induction "kNumWalls - wallNum" arbitrary: wallNum)
  case 0
  then have "wallNum = kNumWalls" by simp
  then show ?case by (subst buildWalls.simps) simp
next
  case (Suc d)
  from Suc.hyps(2) have lt: "wallNum < kNumWalls" by simp
  then have "Suc wallNum * lpw \<le> kNumWalls * lpw" by (simp add: Suc_leI del: mult_Suc)
  with assms(1) have room: "wallNum * lpw + lpw \<le> length s" by simp
  let ?chunk = "take lpw (drop (wallNum * lpw) s)"
  let ?lb = "boxOf (wallsOf s lpw wallNum)"
  have fw: "fillWall s lpw wallNum 0 ([], ?lb) =
           Inr (?chunk, ?lb\<lparr>letters := letters ?lb \<union> set ?chunk,
                   letterToWall := noteWall wallNum ?chunk (letterToWall ?lb)\<rparr>)"
    using fillWall_closed [OF room, of 0 "[]" ?lb] by simp
  have nb: "(?lb\<lparr>letters := letters ?lb \<union> set ?chunk,
                   letterToWall := noteWall wallNum ?chunk (letterToWall ?lb),
                   letterWalls := letterWalls ?lb @ [?chunk]\<rparr>) = boxOf (wallsOf s lpw (Suc wallNum))"
    by (auto simp: boxOf_def wallsOf_Suc firstWall_snoc length_wallsOf)
  have "buildWalls s lpw wallNum ?lb = buildWalls s lpw (Suc wallNum) (boxOf (wallsOf s lpw (Suc wallNum)))"
    using lt fw nb by (subst buildWalls.simps) simp
  also have "\<dots> = Inr (boxOf (wallsOf s lpw kNumWalls))"
    using Suc.hyps(1) [of "Suc wallNum"] Suc.hyps(2) lt by simp
  finally show ?case .
qed

lemma LetterBox_ctor_closed:
  "LetterBox_ctor s = Inr (boxOf (wallsOf s (length s div kNumWalls) kNumWalls))"
proof -
  have "kNumWalls * (length s div kNumWalls) \<le> length s" by simp
  moreover have "boxOf (wallsOf s (length s div kNumWalls) 0) = emptyLetterBox"
    by (simp add: boxOf_def wallsOf_def emptyLetterBox_def fun_eq_iff)
  ultimately show ?thesis
    using buildWalls_closed [of "length s div kNumWalls" s 0] by (simp add: LetterBox_ctor_def)
qed

lemma concat_wallsOf: "concat (wallsOf s lpw n) = take (n * lpw) s"
proof (induction n)
  case 0
  show ?case by (simp add: wallsOf_def)
next
  case (Suc n)
  have "take (n * lpw) s @ take lpw (drop (n * lpw) s) = take (n * lpw + lpw) s"
    by (simp add: take_add)
  then show ?case by (simp add: wallsOf_Suc Suc add.commute)
qed

lemma length_wall_of:
  assumes "n * lpw \<le> length s" and "wall \<in> set (wallsOf s lpw n)"
  shows "length wall = lpw"
proof -
  from assms(2) obtain j where j: "j < n" and wall: "wall = take lpw (drop (j * lpw) s)"
    by (auto simp: wallsOf_def)
  from j have "Suc j * lpw \<le> n * lpw" by (simp add: Suc_leI del: mult_Suc)
  with assms(1) have "j * lpw + lpw \<le> length s" by simp
  then show ?thesis by (simp add: wall)
qed

lemma firstWall_None: "firstWall walls c = None \<longleftrightarrow> c \<notin> \<Union> (set ` set walls)"
  by (induction walls) auto

lemma firstWall_Some:
  "firstWall walls c = Some j \<longleftrightarrow>
     j < length walls \<and> c \<in> set (walls ! j) \<and> (\<forall>i < j. c \<notin> set (walls ! i))"
proof (induction walls arbitrary: j)
  case Nil
  show ?case by simp
next
  case (Cons wall walls)
  show ?case
  proof (cases "c \<in> set wall")
    case True
    then show ?thesis by (cases j) auto
  next
    case False
    show ?thesis
    proof (cases j)
      case 0
      with False show ?thesis by simp
    next
      case (Suc k)
      have "(\<forall>i < Suc k. c \<notin> set ((wall # walls) ! i)) \<longleftrightarrow> (\<forall>i < k. c \<notin> set (walls ! i))"
        using False by (auto simp: less_Suc_eq_0_disj)
      with False Suc Cons [of k] show ?thesis by auto
    qed
  qed
qed

lemma walls_disjoint_less:
  assumes "distinct (concat walls)" and "i < j" and "j < length walls"
    and "c \<in> set (walls ! i)"
  shows "c \<notin> set (walls ! j)"
  using assms
proof (induction walls arbitrary: i j)
  case Nil
  then show ?case by simp
next
  case (Cons wall walls)
  from Cons.prems(2) obtain j' where j: "j = Suc j'" by (cases j) auto
  with Cons.prems(3) have j': "j' < length walls" by simp
  show ?case
  proof (cases i)
    case 0
    with Cons.prems(4) have "c \<in> set wall" by simp
    moreover have "walls ! j' \<in> set walls" using j' by simp
    then have "set (walls ! j') \<subseteq> set (concat walls)" by auto
    ultimately show ?thesis using Cons.prems(1) j by auto
  next
    case (Suc i')
    with Cons.prems j j' Cons.IH [of i' j'] show ?thesis by simp
  qed
qed

lemma walls_disjoint:
  assumes "distinct (concat walls)" and "i < length walls" and "j < length walls"
    and "c \<in> set (walls ! i)" and "c \<in> set (walls ! j)"
  shows "i = j"
proof (rule ccontr)
  assume "i \<noteq> j"
  then consider "i < j" | "j < i" by linarith
  then show False
  proof cases
    case 1
    from walls_disjoint_less [OF assms(1) 1 assms(3) assms(4)] assms(5) show False by simp
  next
    case 2
    from walls_disjoint_less [OF assms(1) 2 assms(2) assms(5)] assms(4) show False by simp
  qed
qed

lemma onSameWall_boxOf:
  "onSameWall (boxOf walls) a b \<longleftrightarrow>
     (\<exists>i. firstWall walls a = Some i \<and> firstWall walls b = Some i)"
  by (auto simp: onSameWall_def boxOf_def split: option.splits)




lemma LetterBox_ctor_partition:
  assumes "length s = kNumWalls * k" and "1 \<le> k" and "distinct s"
  shows "\<exists>lb. LetterBox_ctor s = Inr lb \<and>
           length (letterWalls lb) = kNumWalls \<and>
           (\<forall>wall \<in> set (letterWalls lb). length wall = k) \<and>
           letters lb = set s \<and>
           (\<forall>c \<in> set s. \<exists>!j. j < kNumWalls \<and> c \<in> set (letterWalls lb ! j)) \<and>
           (\<forall>c \<in> set s. \<forall>j. letterToWall lb c = Some j \<longleftrightarrow>
                                j < kNumWalls \<and> c \<in> set (letterWalls lb ! j)) \<and>
           (\<forall>a \<in> set s. \<forall>b \<in> set s. onSameWall lb a b \<longleftrightarrow>
              (\<exists>wall \<in> set (letterWalls lb). a \<in> set wall \<and> b \<in> set wall))"
proof -
  define walls where "walls = wallsOf s (length s div kNumWalls) kNumWalls"
  have lpw: "length s div kNumWalls = k" using assms(1) by (simp add: kNumWalls_def)
  have ctor: "LetterBox_ctor s = Inr (boxOf walls)"
    by (simp add: LetterBox_ctor_closed walls_def)
  have len: "length walls = kNumWalls" by (simp add: walls_def length_wallsOf)
  have cat: "concat walls = s"
    using assms(1) by (simp add: walls_def concat_wallsOf lpw)
  have "kNumWalls * k \<le> length s" using assms(1) by simp
  then have each: "\<forall>wall \<in> set walls. length wall = k"
    unfolding walls_def lpw using length_wall_of by blast
  have all: "\<Union> (set ` set walls) = set s"
    using cat by (metis set_concat)
  have dist: "distinct (concat walls)" using cat assms(3) by simp
  have uniq: "\<exists>!j. j < kNumWalls \<and> c \<in> set (walls ! j)" if "c \<in> set s" for c
  proof -
    from that all obtain wall where "wall \<in> set walls" "c \<in> set wall" by blast
    then obtain j where j: "j < length walls" "c \<in> set (walls ! j)"
      by (metis in_set_conv_nth)
    show ?thesis
    proof (rule ex1I [of _ j])
      show "j < kNumWalls \<and> c \<in> set (walls ! j)" using j len by simp
    next
      fix i assume "i < kNumWalls \<and> c \<in> set (walls ! i)"
      then show "i = j" using walls_disjoint [OF dist _ _ _ j(2), of i] j(1) len by simp
    qed
  qed
  have l2w: "firstWall walls c = Some j \<longleftrightarrow> j < kNumWalls \<and> c \<in> set (walls ! j)" for c j
  proof -
    have "\<forall>i < j. c \<notin> set (walls ! i)" if "j < length walls" "c \<in> set (walls ! j)"
    proof (intro allI impI)
      fix i assume "i < j"
      from walls_disjoint_less [OF dist this that(1)] that(2)
      show "c \<notin> set (walls ! i)" by blast
    qed
    then show ?thesis unfolding firstWall_Some len [symmetric] by blast
  qed
  have same: "onSameWall (boxOf walls) a b \<longleftrightarrow>
      (\<exists>wall \<in> set walls. a \<in> set wall \<and> b \<in> set wall)" for a b
  proof -
    have "(\<exists>wall \<in> set walls. a \<in> set wall \<and> b \<in> set wall) \<longleftrightarrow>
          (\<exists>i. i < kNumWalls \<and> a \<in> set (walls ! i) \<and> b \<in> set (walls ! i))"
      unfolding len [symmetric] by (metis in_set_conv_nth)
    then show ?thesis unfolding onSameWall_boxOf l2w by blast
  qed
  show ?thesis
    using ctor len each all uniq l2w same
    by (intro exI [of _ "boxOf walls"]) (simp add: boxOf_def)
qed


text \<open>
  Claim C2. For every box and every string, \<open>canMakeWord\<close> (the spec's
  \<^verbatim>\<open>isValidWord\<close>) is false when the word has fewer than \<open>kMinWordLength\<close> characters,
  false when one of its characters is not a letter of the box, false when two adjacent
  characters are on the same wall, and true for every other word. The same wall is what
  \<open>onSameWall\<close> says; for the box of a string of \<open>4 * k\<close> pairwise distinct letters
  this is the same as being together in one of the walls of the box.
\<close>

theorem canMakeWord_iff:
  "kMinWordLength = 3 \<and>
   (canMakeWord lb w \<longleftrightarrow>
     \<not> (length w < kMinWordLength \<or>
        (\<exists>c \<in> set w. \<not> contains lb c) \<or>
        (\<exists>i. Suc i < length w \<and> onSameWall lb (w ! i) (w ! Suc i)))) \<and>
   (length s = kNumWalls * k \<and> 1 \<le> k \<and> distinct s \<longrightarrow>
      (\<exists>box. LetterBox_ctor s = Inr box \<and>
         (canMakeWord box w \<longleftrightarrow>
            \<not> (length w < kMinWordLength \<or>
               (\<exists>c \<in> set w. c \<notin> set s) \<or>
               (\<exists>i. Suc i < length w \<and>
                  (\<exists>wall \<in> set (letterWalls box).
                     w ! i \<in> set wall \<and> w ! Suc i \<in> set wall))))))"
proof -
  have a: "canMakeWord lb w \<longleftrightarrow>
     \<not> (length w < kMinWordLength \<or>
        (\<exists>c \<in> set w. \<not> contains lb c) \<or>
        (\<exists>i. Suc i < length w \<and> onSameWall lb (w ! i) (w ! Suc i)))" for lb
    using canMakeWord_chars [of lb w] by auto
  have b: "\<exists>box. LetterBox_ctor s = Inr box \<and>
         (canMakeWord box w \<longleftrightarrow>
            \<not> (length w < kMinWordLength \<or>
               (\<exists>c \<in> set w. c \<notin> set s) \<or>
               (\<exists>i. Suc i < length w \<and>
                  (\<exists>wall \<in> set (letterWalls box).
                     w ! i \<in> set wall \<and> w ! Suc i \<in> set wall))))"
    if h: "length s = kNumWalls * k \<and> 1 \<le> k \<and> distinct s"
  proof -
    from h LetterBox_ctor_partition [of s k]
    obtain box where ctor: "LetterBox_ctor s = Inr box" and ls: "letters box = set s"
      and same: "\<forall>a \<in> set s. \<forall>b \<in> set s. onSameWall box a b \<longleftrightarrow>
              (\<exists>wall \<in> set (letterWalls box). a \<in> set wall \<and> b \<in> set wall)"
      by blast
    have "canMakeWord box w \<longleftrightarrow>
            \<not> (length w < kMinWordLength \<or>
               (\<exists>c \<in> set w. c \<notin> set s) \<or>
               (\<exists>i. Suc i < length w \<and>
                  (\<exists>wall \<in> set (letterWalls box).
                     w ! i \<in> set wall \<and> w ! Suc i \<in> set wall)))"
    proof (cases "\<forall>c \<in> set w. c \<in> set s")
      case False
      then show ?thesis unfolding a [of box] by (auto simp: contains_def ls)
    next
      case True
      have "onSameWall box (w ! i) (w ! Suc i) \<longleftrightarrow>
          (\<exists>wall \<in> set (letterWalls box). w ! i \<in> set wall \<and> w ! Suc i \<in> set wall)"
        if "Suc i < length w" for i
      proof -
        from that True have "w ! i \<in> set s" "w ! Suc i \<in> set s" by simp_all
        with same show ?thesis by blast
      qed
      with True show ?thesis unfolding a [of box] by (auto simp: contains_def ls)
    qed
    with ctor show ?thesis by blast
  qed
  from a [of lb] b show ?thesis by (simp add: kMinWordLength_def)
qed

theorem canMakeWord_iff_witness:
  "canMakeWord (boxOf [''AB'', ''CD'', ''EF'', ''GH'']) ''ACE'' \<and>
   \<not> canMakeWord (boxOf [''AB'', ''CD'', ''EF'', ''GH'']) ''AC'' \<and>
   \<not> canMakeWord (boxOf [''AB'', ''CD'', ''EF'', ''GH'']) ''ACZ'' \<and>
   \<not> canMakeWord (boxOf [''AB'', ''CD'', ''EF'', ''GH'']) ''CAB'' \<and>
   length ''ABCDEFGH'' = kNumWalls * 2 \<and> (1::nat) \<le> 2 \<and> distinct ''ABCDEFGH'' \<and>
   (\<exists>box. LetterBox_ctor ''ABCDEFGH'' = Inr box \<and> \<not> canMakeWord box ''CAB'')"
proof -
  let ?box = "boxOf [''AB'', ''CD'', ''EF'', ''GH'']"
  have len: "\<not> length ''ACE'' < kMinWordLength" by (simp add: kMinWordLength_def)
  have mem: "\<not> (\<exists>c \<in> set ''ACE''. \<not> contains ?box c)"
    by (simp add: contains_def boxOf_def)
  have adj: "\<not> (\<exists>i. Suc i < length ''ACE'' \<and> onSameWall ?box (''ACE'' ! i) (''ACE'' ! Suc i))"
  proof
    assume "\<exists>i. Suc i < length ''ACE'' \<and> onSameWall ?box (''ACE'' ! i) (''ACE'' ! Suc i)"
    then obtain i where i: "Suc i < length ''ACE''"
      and same: "onSameWall ?box (''ACE'' ! i) (''ACE'' ! Suc i)" by blast
    from i have "i = 0 \<or> i = 1" by auto
    then show False using same by (auto simp: onSameWall_def boxOf_def)
  qed
  have "canMakeWord ?box ''ACE''"
    using canMakeWord_iff [of ?box "''ACE''"] len mem adj by blast
  moreover have "\<not> canMakeWord ?box ''AC''"
    using canMakeWord_iff [of ?box "''AC''"] by (simp add: kMinWordLength_def)
  moreover have "\<not> canMakeWord ?box ''ACZ''"
    using canMakeWord_iff [of ?box "''ACZ''"] by (simp add: contains_def boxOf_def)
  moreover have "Suc 1 < length ''CAB'' \<and> onSameWall ?box (''CAB'' ! 1) (''CAB'' ! Suc 1)"
    by (simp add: onSameWall_def boxOf_def)
  then have "\<not> canMakeWord ?box ''CAB''"
    using canMakeWord_iff [of ?box "''CAB''"] by blast
  moreover have h: "length ''ABCDEFGH'' = kNumWalls * 2 \<and> (1::nat) \<le> 2 \<and> distinct ''ABCDEFGH''"
    by (simp add: kNumWalls_def)
  moreover have "\<exists>box. LetterBox_ctor ''ABCDEFGH'' = Inr box \<and> \<not> canMakeWord box ''CAB''"
  proof -
    from canMakeWord_iff [of _ "''CAB''" "''ABCDEFGH''" 2] h
    obtain box where ctor: "LetterBox_ctor ''ABCDEFGH'' = Inr box"
      and iff: "canMakeWord box ''CAB'' \<longleftrightarrow>
            \<not> (length ''CAB'' < kMinWordLength \<or>
               (\<exists>c \<in> set ''CAB''. c \<notin> set ''ABCDEFGH'') \<or>
               (\<exists>i. Suc i < length ''CAB'' \<and>
                  (\<exists>wall \<in> set (letterWalls box).
                     ''CAB'' ! i \<in> set wall \<and> ''CAB'' ! Suc i \<in> set wall)))"
      by blast
    have "box = boxOf (wallsOf ''ABCDEFGH'' (length ''ABCDEFGH'' div kNumWalls) kNumWalls)"
      using ctor by (simp add: LetterBox_ctor_closed)
    then have "letterWalls box = [''AB'', ''CD'', ''EF'', ''GH'']"
      by (simp add: boxOf_def wallsOf_def kNumWalls_def upt_rec)
    then have "Suc 1 < length ''CAB'' \<and>
        (\<exists>wall \<in> set (letterWalls box). ''CAB'' ! 1 \<in> set wall \<and> ''CAB'' ! Suc 1 \<in> set wall)"
      by simp
    with iff have "\<not> canMakeWord box ''CAB''" by blast
    with ctor show ?thesis by blast
  qed
  ultimately show ?thesis by blast
qed

text \<open>
  Claim C4. For a letter string of length \<open>4 * k\<close> with \<open>k \<ge> 1\<close> and pairwise distinct
  letters the constructor returns a box with \<open>kNumWalls\<close> walls of \<open>k\<close> letters each; the
  letters of the box are those of the string; every letter is on exactly one wall, which
  is the wall \<open>letterToWall\<close> gives for it; and \<open>onSameWall\<close> holds of two letters exactly
  when one wall has both.
\<close>

theorem LetterBox_walls_partition:
  assumes "length s = kNumWalls * k" and "1 \<le> k" and "distinct s"
  shows "kNumWalls = 4 \<and>
         (\<exists>lb. LetterBox_ctor s = Inr lb \<and>
           length (letterWalls lb) = kNumWalls \<and>
           (\<forall>wall \<in> set (letterWalls lb). length wall = k) \<and>
           letters lb = set s \<and>
           (\<forall>c \<in> set s. \<exists>!j. j < kNumWalls \<and> c \<in> set (letterWalls lb ! j)) \<and>
           (\<forall>c \<in> set s. \<forall>j. letterToWall lb c = Some j \<longleftrightarrow>
                                j < kNumWalls \<and> c \<in> set (letterWalls lb ! j)) \<and>
           (\<forall>a \<in> set s. \<forall>b \<in> set s. onSameWall lb a b \<longleftrightarrow>
              (\<exists>wall \<in> set (letterWalls lb). a \<in> set wall \<and> b \<in> set wall)))"
  using LetterBox_ctor_partition [OF assms] by (simp add: kNumWalls_def)

theorem LetterBox_walls_partition_witness:
  "length ''ABCDEFGH'' = kNumWalls * 2 \<and> (1::nat) \<le> 2 \<and> distinct ''ABCDEFGH'' \<and>
   (\<exists>lb. LetterBox_ctor ''ABCDEFGH'' = Inr lb \<and>
      length (letterWalls lb) = 4 \<and> letters lb = set ''ABCDEFGH'' \<and>
      (\<exists>!j. j < 4 \<and> CHR ''C'' \<in> set (letterWalls lb ! j)))"
proof -
  have h: "length ''ABCDEFGH'' = kNumWalls * 2" "(1::nat) \<le> 2" "distinct ''ABCDEFGH''"
    by (simp_all add: kNumWalls_def)
  from LetterBox_walls_partition [OF h]
  obtain lb where "LetterBox_ctor ''ABCDEFGH'' = Inr lb"
    and "length (letterWalls lb) = kNumWalls" and "letters lb = set ''ABCDEFGH''"
    and "\<forall>c \<in> set ''ABCDEFGH''. \<exists>!j. j < kNumWalls \<and> c \<in> set (letterWalls lb ! j)"
    and k: "kNumWalls = 4"
    by blast
  then have "LetterBox_ctor ''ABCDEFGH'' = Inr lb \<and>
      length (letterWalls lb) = 4 \<and> letters lb = set ''ABCDEFGH'' \<and>
      (\<exists>!j. j < 4 \<and> CHR ''C'' \<in> set (letterWalls lb ! j))"
    by simp
  then show ?thesis using h by blast
qed






section \<open>The word table\<close>

lemma fold_insert_set: "fold insert xs A = set xs \<union> A"
  by (induction xs arbitrary: A) auto

lemma content_Word_ctor [simp]: "content (Word_ctor s) = s"
  by (simp add: Word_ctor_def)

lemma nUniqueLetters_Word_ctor [simp]: "nUniqueLetters (Word_ctor s) = card (set s)"
  by (simp add: Word_ctor_def fold_insert_set)

lemma wordsAt_empty [simp]: "wordsAt Map.empty c = []"
  by (simp add: wordsAt_def)

lemma wordsAt_upd: "wordsAt (t(k \<mapsto> ws)) c = (if c = k then ws else wordsAt t c)"
  by (simp add: wordsAt_def)

lemma set_insertWord:
  assumes "\<forall>v \<in> set ws. v = Word_ctor (content v)"
  shows "set (insertWord (Word_ctor s) ws) = insert (Word_ctor s) (set ws)"
proof (cases "\<exists>v \<in> set ws. Word_eq v (Word_ctor s)")
  case True
  then obtain v where v: "v \<in> set ws" "content v = s" by (auto simp: Word_eq_def)
  with assms have "v = Word_ctor s" by force
  with v True show ?thesis by (auto simp: insertWord_def)
next
  case False
  then show ?thesis by (simp add: insertWord_def)
qed

lemma distinct_insertWord:
  assumes "distinct (map content ws)"
  shows "distinct (map content (insertWord w ws))"
  using assms by (auto simp: insertWord_def Word_eq_def)

lemma buildFilteredWordList_set:
  assumes "builtWords t0"
  shows "builtWords (buildFilteredWordList dict lb t0) \<and>
         (\<forall>c. set (wordsAt (buildFilteredWordList dict lb t0) c) =
            set (wordsAt t0 c) \<union>
            {Word_ctor s | s. s \<in> set dict \<and> canMakeWord lb s \<and> s ! 0 = c})"
  using assms
proof (induction dict arbitrary: t0)
  case Nil
  then show ?case by simp
next
  case (Cons s dict)
  show ?case
  proof (cases "canMakeWord lb s")
    case False
    with Cons.IH [OF Cons.prems] show ?thesis by auto
  next
    case True
    let ?t1 = "t0(s ! 0 \<mapsto> insertWord (Word_ctor s) (wordsAt t0 (s ! 0)))"
    have old: "\<forall>v \<in> set (wordsAt t0 (s ! 0)). v = Word_ctor (content v)"
      using Cons.prems by (simp add: builtWords_def)
    have at1: "set (wordsAt ?t1 c) =
        set (wordsAt t0 c) \<union> (if c = s ! 0 then {Word_ctor s} else {})" for c
      using set_insertWord [OF old, of s] by (auto simp: wordsAt_upd)
    have b1: "builtWords ?t1"
      unfolding builtWords_def
    proof (intro allI ballI)
      fix c v assume "v \<in> set (wordsAt ?t1 c)"
      then have "v \<in> set (wordsAt t0 c) \<or> v = Word_ctor s"
        unfolding at1 by (auto split: if_splits)
      then show "v = Word_ctor (content v)"
        using Cons.prems by (auto simp: builtWords_def)
    qed
    have step: "buildFilteredWordList (s # dict) lb t0 = buildFilteredWordList dict lb ?t1"
      using True by simp
    from Cons.IH [OF b1] have b: "builtWords (buildFilteredWordList dict lb ?t1)"
      and sets: "\<And>c. set (wordsAt (buildFilteredWordList dict lb ?t1) c) =
            set (wordsAt ?t1 c) \<union>
            {Word_ctor s | s. s \<in> set dict \<and> canMakeWord lb s \<and> s ! 0 = c}"
      by blast+
    have "set (wordsAt (buildFilteredWordList dict lb ?t1) c) =
            set (wordsAt t0 c) \<union>
            {Word_ctor s' | s'. s' \<in> set (s # dict) \<and> canMakeWord lb s' \<and> s' ! 0 = c}" for c
      unfolding sets at1 using True by auto
    with b show ?thesis unfolding step by blast
  qed
qed

lemma buildFilteredWordList_distinct:
  assumes "\<forall>c. distinct (map content (wordsAt t0 c))"
  shows "distinct (map content (wordsAt (buildFilteredWordList dict lb t0) c))"
  using assms
proof (induction dict arbitrary: t0)
  case Nil
  then show ?case by simp
next
  case (Cons s dict)
  show ?case
  proof (cases "canMakeWord lb s")
    case False
    with Cons.IH [OF Cons.prems] show ?thesis by simp
  next
    case True
    let ?t1 = "t0(s ! 0 \<mapsto> insertWord (Word_ctor s) (wordsAt t0 (s ! 0)))"
    have "\<forall>c. distinct (map content (wordsAt ?t1 c))"
      using Cons.prems distinct_insertWord by (simp add: wordsAt_upd)
    from Cons.IH [OF this]
    have "distinct (map content (wordsAt (buildFilteredWordList dict lb ?t1) c))" .
    moreover have "buildFilteredWordList (s # dict) lb t0 = buildFilteredWordList dict lb ?t1"
      using True by simp
    ultimately show ?thesis by (simp only:)
  qed
qed

lemma built_table_words:
  assumes "w \<in> set (wordsAt (buildFilteredWordList dict lb Map.empty) c)"
  shows "content w \<in> set dict" and "canMakeWord lb (content w)" and "content w ! 0 = c"
    and "w = Word_ctor (content w)"
proof -
  have "builtWords Map.empty" by (simp add: builtWords_def)
  from buildFilteredWordList_set [OF this, of dict lb] assms
  obtain s where "w = Word_ctor s" "s \<in> set dict" "canMakeWord lb s" "s ! 0 = c"
    by auto
  then show "content w \<in> set dict" and "canMakeWord lb (content w)" and "content w ! 0 = c"
    and "w = Word_ctor (content w)"
    by simp_all
qed

lemma built_table_has:
  assumes "s \<in> set dict" and "canMakeWord lb s"
  shows "Word_ctor s \<in> set (wordsAt (buildFilteredWordList dict lb Map.empty) (s ! 0))"
proof -
  have "builtWords Map.empty" by (simp add: builtWords_def)
  from buildFilteredWordList_set [OF this, of dict lb] assms show ?thesis by auto
qed

lemma built_table_nonempty: "wordsNonempty (buildFilteredWordList dict lb Map.empty)"
  unfolding wordsNonempty_def
proof (intro allI ballI)
  fix c w assume "w \<in> set (wordsAt (buildFilteredWordList dict lb Map.empty) c)"
  from built_table_words(2) [OF this] have "kMinWordLength \<le> length (content w)"
    by (simp add: canMakeWord_chars)
  then show "content w \<noteq> []" by (auto simp: kMinWordLength_def)
qed

lemma built_table_counted: "wordsCounted (buildFilteredWordList dict lb Map.empty)"
  unfolding wordsCounted_def
proof (intro allI ballI)
  fix c w assume "w \<in> set (wordsAt (buildFilteredWordList dict lb Map.empty) c)"
  from built_table_words(4) [OF this] have "nUniqueLetters w = nUniqueLetters (Word_ctor (content w))"
    by simp
  then show "nUniqueLetters w = card (set (content w))" by simp
qed

lemma sameWords_refl: "sameWords t t"
  by (simp add: sameWords_def)

lemma sameWords_built:
  assumes "sameWords t (buildFilteredWordList dict lb Map.empty)"
  shows "wordsNonempty t" and "wordsCounted t"
  using assms built_table_nonempty [of dict lb] built_table_counted [of dict lb]
  by (simp_all add: sameWords_def wordsNonempty_def wordsCounted_def)

lemma linked_sameWords:
  assumes "sameWords t t'"
  shows "linked t c sol \<longleftrightarrow> linked t' c sol"
  using assms by (induction sol arbitrary: c) (simp_all add: sameWords_def)

text \<open>
  Claim C6. In the table that \<open>buildFilteredWordList\<close> builds from the lines of a
  dictionary, starting from the empty table, a line is the text of a word stored under its
  first letter if and only if \<open>canMakeWord\<close> holds of it; no two words stored under one
  letter have the same text; and every stored word was made by the \<open>Word\<close> constructor
  from a line that \<open>canMakeWord\<close> accepts and is stored under the first letter of its text,
  under no other.
\<close>

theorem buildFilteredWordList_catalog:
  "(\<forall>s \<in> set dict.
      (\<exists>w \<in> set (wordsAt (buildFilteredWordList dict lb Map.empty) (s ! 0)). content w = s)
        \<longleftrightarrow> canMakeWord lb s) \<and>
   (\<forall>c. distinct (map content (wordsAt (buildFilteredWordList dict lb Map.empty) c))) \<and>
   (\<forall>c. \<forall>w \<in> set (wordsAt (buildFilteredWordList dict lb Map.empty) c).
      content w \<in> set dict \<and> canMakeWord lb (content w) \<and> content w ! 0 = c \<and>
      w = Word_ctor (content w))"
proof (intro conjI ballI allI)
  fix s assume s: "s \<in> set dict"
  show "(\<exists>w \<in> set (wordsAt (buildFilteredWordList dict lb Map.empty) (s ! 0)). content w = s)
        \<longleftrightarrow> canMakeWord lb s"
  proof
    assume "\<exists>w \<in> set (wordsAt (buildFilteredWordList dict lb Map.empty) (s ! 0)). content w = s"
    then show "canMakeWord lb s" using built_table_words(2) by blast
  next
    assume "canMakeWord lb s"
    from built_table_has [OF s this] show
      "\<exists>w \<in> set (wordsAt (buildFilteredWordList dict lb Map.empty) (s ! 0)). content w = s"
      by (intro bexI [of _ "Word_ctor s"]) simp_all
  qed
next
  fix c
  show "distinct (map content (wordsAt (buildFilteredWordList dict lb Map.empty) c))"
    by (rule buildFilteredWordList_distinct) simp
next
  fix c w assume w: "w \<in> set (wordsAt (buildFilteredWordList dict lb Map.empty) c)"
  show "content w \<in> set dict" by (rule built_table_words(1) [OF w])
  show "canMakeWord lb (content w)" by (rule built_table_words(2) [OF w])
  show "content w ! 0 = c" by (rule built_table_words(3) [OF w])
  show "w = Word_ctor (content w)" by (rule built_table_words(4) [OF w])
qed

theorem buildFilteredWordList_catalog_witness:
  "''ACE'' \<in> set [''ACE'', ''AC'', ''ACE'', ''CAB'', ''EAC''] \<and>
   canMakeWord (boxOf [''AB'', ''CD'', ''EF'', ''GH'']) ''ACE'' \<and>
   (\<exists>w \<in> set (wordsAt (buildFilteredWordList [''ACE'', ''AC'', ''ACE'', ''CAB'', ''EAC'']
                          (boxOf [''AB'', ''CD'', ''EF'', ''GH'']) Map.empty) (''ACE'' ! 0)).
      content w = ''ACE'') \<and>
   \<not> canMakeWord (boxOf [''AB'', ''CD'', ''EF'', ''GH'']) ''CAB'' \<and>
   \<not> (\<exists>w \<in> set (wordsAt (buildFilteredWordList [''ACE'', ''AC'', ''ACE'', ''CAB'', ''EAC'']
                          (boxOf [''AB'', ''CD'', ''EF'', ''GH'']) Map.empty) (''CAB'' ! 0)).
      content w = ''CAB'') \<and>
   distinct (map content
     (wordsAt (buildFilteredWordList [''ACE'', ''AC'', ''ACE'', ''CAB'', ''EAC'']
                (boxOf [''AB'', ''CD'', ''EF'', ''GH'']) Map.empty) CHR ''A''))"
proof -
  let ?dict = "[''ACE'', ''AC'', ''ACE'', ''CAB'', ''EAC'']"
  let ?box = "boxOf [''AB'', ''CD'', ''EF'', ''GH'']"
  note c = buildFilteredWordList_catalog [of ?dict ?box]
  have m1: "''ACE'' \<in> set ?dict" and m2: "''CAB'' \<in> set ?dict" by simp_all
  have v1: "canMakeWord ?box ''ACE''" by code_simp
  have v2: "\<not> canMakeWord ?box ''CAB''" by code_simp
  from c m1 v1 have "\<exists>w \<in> set (wordsAt (buildFilteredWordList ?dict ?box Map.empty) (''ACE'' ! 0)).
      content w = ''ACE''" by blast
  moreover from c m2 v2 have
    "\<not> (\<exists>w \<in> set (wordsAt (buildFilteredWordList ?dict ?box Map.empty) (''CAB'' ! 0)).
      content w = ''CAB'')" by blast
  moreover from c have
    "distinct (map content (wordsAt (buildFilteredWordList ?dict ?box Map.empty) CHR ''A''))"
    by blast
  ultimately show ?thesis using m1 v1 v2 by blast
qed

section \<open>The number of words\<close>











section \<open>The search and the chains it finds\<close>

lemma chainsVia_Nil: "wordChainsVia t n remaining [] = []"
  by (simp add: wordChainsVia_def)

lemma chainsVia_Cons:
  "wordChainsVia t n remaining (w # ws) =
     map ((#) (content w)) (wordChains t n (last (content w)) (remaining - set (content w)))
     @ wordChainsVia t n remaining ws"
  by (simp add: wordChainsVia_def)

lemma chains_Suc: "wordChains t (Suc n) c remaining = wordChainsVia t n remaining (wordsAt t c)"
  by (simp add: wordChainsVia_def)

lemma Word_at_last:
  "content w \<noteq> [] \<Longrightarrow> Word_at w (int (Word_size w) - 1) = Inr (last (content w))"
  by (cases "content w" rule: rev_cases)
     (auto simp: Word_at_def Word_size_def nth_append nat_diff_distrib')

lemma sameFrame_refl: "sameFrame n result result"
  by (simp add: sameFrame_def)

lemma take_update_step:
  assumes "Suc n \<le> length result"
  shows "take (length result - n) (result[length result - Suc n := x]) =
           take (length result - Suc n) result @ [x]"
proof -
  let ?k = "length result - Suc n"
  have k: "?k < length result" and eq: "length result - n = Suc ?k" using assms by auto
  have "take (Suc ?k) (result[?k := x]) = take ?k (result[?k := x]) @ [result[?k := x] ! ?k]"
    using k by (simp add: take_Suc_conv_app_nth)
  then show ?thesis using k eq by simp
qed

lemma sameFrame_step:
  assumes "Suc n \<le> length result"
    and "sameFrame n (result[length result - Suc n := x]) result2"
    and "sameFrame (Suc n) result2 result3"
  shows "sameFrame (Suc n) result result3"
proof -
  let ?k = "length result - Suc n"
  have len2: "length result2 = length result" using assms(2) by (simp add: sameFrame_def)
  have len3: "length result3 = length result" using assms(3) len2 by (simp add: sameFrame_def)
  have "take (length result - n) result2 = take (length result - n) (result[?k := x])"
    using assms(2) by (simp add: sameFrame_def)
  then have "take ?k (take (length result - n) result2) = take ?k (take (length result - n) (result[?k := x]))"
    by simp
  moreover have "min ?k (length result - n) = ?k" by simp
  ultimately have "take ?k result2 = take ?k (result[?k := x])"
    by (simp only: take_take)
  then have "take ?k result2 = take ?k result" by simp
  moreover have "take ?k result3 = take ?k result2"
    using assms(3) len2 by (simp add: sameFrame_def)
  ultimately show ?thesis using len3 by (simp add: sameFrame_def)
qed

lemma prune_sound:
  fixes remaining :: "char set"
  assumes "card remaining > card (set cs)"
  shows "remaining - set cs \<noteq> {}"
proof
  assume "remaining - set cs = {}"
  then have "remaining \<subseteq> set cs" by blast
  then have "card remaining \<le> card (set cs)" by (intro card_mono) simp_all
  with assms show False by simp
qed

lemma generateSolutionsLoop_chains:
  assumes rec: "\<And>c remaining result solutions. n \<le> length result \<Longrightarrow>
      \<exists>result'. generateSolutionsRec lb n c remaining t (result, solutions) =
          Inr (result', solutions @ map ((@) (take (length result - n) result)) (wordChains t n c remaining))
        \<and> sameFrame n result result'"
    and ne: "\<forall>w \<in> set ws. content w \<noteq> []"
    and cnt: "\<forall>w \<in> set ws. nUniqueLetters w = card (set (content w))"
    and len: "Suc n \<le> length result"
  shows "\<exists>result'. generateSolutionsLoop lb (Suc n) remaining t ws (result, solutions) =
          Inr (result', solutions @ map ((@) (take (length result - Suc n) result))
                                      (wordChainsVia t n remaining ws))
        \<and> sameFrame (Suc n) result result'"
  using ne cnt len
proof (induction ws arbitrary: result solutions)
  case Nil
  show ?case by (simp add: chainsVia_Nil sameFrame_refl)
next
  case (Cons w ws)
  let ?pre = "take (length result - Suc n) result"
  let ?here = "wordChains t n (last (content w)) (remaining - set (content w))"
  from Cons.prems have w_ne: "content w \<noteq> []"
    and w_cnt: "nUniqueLetters w = card (set (content w))"
    and ws_ne: "\<forall>w \<in> set ws. content w \<noteq> []"
    and ws_cnt: "\<forall>w \<in> set ws. nUniqueLetters w = card (set (content w))"
    and len: "Suc n \<le> length result"
    by simp_all
  show ?case
  proof (cases "Suc n = 1 \<and> card remaining > nUniqueLetters w")
    case True
    then have "n = 0" and "remaining - set (content w) \<noteq> {}"
      using prune_sound [of "content w" remaining] w_cnt by simp_all
    then have "?here = []" by simp
    then have via: "wordChainsVia t n remaining (w # ws) = wordChainsVia t n remaining ws"
      by (simp add: chainsVia_Cons)
    have "generateSolutionsLoop lb (Suc n) remaining t (w # ws) (result, solutions) =
          generateSolutionsLoop lb (Suc n) remaining t ws (result, solutions)"
      using True by simp
    with Cons.IH [OF ws_ne ws_cnt len, of solutions] via show ?thesis by simp
  next
    case False
    let ?result1 = "result[length result - Suc n := content w]"
    have "n \<le> length ?result1" using len by simp
    from rec [OF this, of "last (content w)" "remaining - set (content w)" solutions]
    obtain result2 where
      r2: "generateSolutionsRec lb n (last (content w)) (remaining - set (content w)) t
             (?result1, solutions) =
           Inr (result2, solutions @ map ((@) (take (length ?result1 - n) ?result1)) ?here)"
      and f2: "sameFrame n ?result1 result2"
      by blast
    have pre1: "take (length ?result1 - n) ?result1 = ?pre @ [content w]"
      using take_update_step [OF len] by simp
    have len2: "length result2 = length result" using f2 by (simp add: sameFrame_def)
    then have "Suc n \<le> length result2" using len by simp
    from Cons.IH [OF ws_ne ws_cnt this,
        of "solutions @ map ((@) (take (length ?result1 - n) ?result1)) ?here"]
    obtain result3 where
      r3: "generateSolutionsLoop lb (Suc n) remaining t ws
             (result2, solutions @ map ((@) (take (length ?result1 - n) ?result1)) ?here) =
           Inr (result3, (solutions @ map ((@) (take (length ?result1 - n) ?result1)) ?here)
                  @ map ((@) (take (length result2 - Suc n) result2)) (wordChainsVia t n remaining ws))"
      and f3: "sameFrame (Suc n) result2 result3"
      by blast
    have f: "sameFrame (Suc n) result result3"
      using sameFrame_step [OF len f2 f3] .
    have pre2: "take (length result2 - Suc n) result2 = ?pre"
    proof -
      have "sameFrame (Suc n) result result2"
        using sameFrame_step [OF len f2 sameFrame_refl] .
      then show ?thesis by (simp add: sameFrame_def)
    qed
    have "generateSolutionsLoop lb (Suc n) remaining t (w # ws) (result, solutions) =
          generateSolutionsLoop lb (Suc n) remaining t ws
             (result2, solutions @ map ((@) (take (length ?result1 - n) ?result1)) ?here)"
      using False len r2 Word_at_last [OF w_ne] by auto
    also note r3
    finally have "generateSolutionsLoop lb (Suc n) remaining t (w # ws) (result, solutions) =
        Inr (result3, solutions @ map ((@) ?pre) (wordChainsVia t n remaining (w # ws)))"
      unfolding pre1 pre2 by (simp add: chainsVia_Cons)
    with f show ?thesis by blast
  qed
qed

lemma generateSolutionsRec_chains:
  assumes "wordsNonempty t" and "wordsCounted t" and "n \<le> length result"
  shows "\<exists>result'. generateSolutionsRec lb n c remaining t (result, solutions) =
          Inr (result', solutions @ map ((@) (take (length result - n) result)) (wordChains t n c remaining))
        \<and> sameFrame n result result'"
  using assms(3)
proof (induction n arbitrary: c remaining result solutions)
  case 0
  show ?case by (simp add: sameFrame_refl generateSolutionsRec.simps)
next
  case (Suc n)
  show ?case
  proof (cases "t c")
    case None
    then show ?thesis by (simp add: wordsAt_def sameFrame_refl generateSolutionsRec.simps)
  next
    case (Some ws)
    then have ws: "wordsAt t c = ws" by (simp add: wordsAt_def)
    have ne: "\<forall>w \<in> set ws. content w \<noteq> []"
      using assms(1) ws unfolding wordsNonempty_def by blast
    have cnt: "\<forall>w \<in> set ws. nUniqueLetters w = card (set (content w))"
      using assms(2) ws unfolding wordsCounted_def by blast
    from generateSolutionsLoop_chains [where lb = lb and t = t, OF Suc.IH ne cnt Suc.prems]
    show ?thesis using Some ws by (simp add: chains_Suc generateSolutionsRec.simps del: wordChains.simps)
  qed
qed

lemma generateSolutionsLoop_noprune_chains:
  assumes rec: "\<And>c remaining result solutions. n \<le> length result \<Longrightarrow>
      \<exists>result'. generateSolutionsRec_noprune lb n c remaining t (result, solutions) =
          Inr (result', solutions @ map ((@) (take (length result - n) result)) (wordChains t n c remaining))
        \<and> sameFrame n result result'"
    and ne: "\<forall>w \<in> set ws. content w \<noteq> []"
    and len: "Suc n \<le> length result"
  shows "\<exists>result'. generateSolutionsLoop_noprune lb (Suc n) remaining t ws (result, solutions) =
          Inr (result', solutions @ map ((@) (take (length result - Suc n) result))
                                      (wordChainsVia t n remaining ws))
        \<and> sameFrame (Suc n) result result'"
  using ne len
proof (induction ws arbitrary: result solutions)
  case Nil
  show ?case by (simp add: chainsVia_Nil sameFrame_refl)
next
  case (Cons w ws)
  let ?pre = "take (length result - Suc n) result"
  let ?here = "wordChains t n (last (content w)) (remaining - set (content w))"
  let ?result1 = "result[length result - Suc n := content w]"
  from Cons.prems have w_ne: "content w \<noteq> []"
    and ws_ne: "\<forall>w \<in> set ws. content w \<noteq> []"
    and len: "Suc n \<le> length result"
    by simp_all
  have "n \<le> length ?result1" using len by simp
  from rec [OF this, of "last (content w)" "remaining - set (content w)" solutions]
  obtain result2 where
    r2: "generateSolutionsRec_noprune lb n (last (content w)) (remaining - set (content w)) t
           (?result1, solutions) =
         Inr (result2, solutions @ map ((@) (take (length ?result1 - n) ?result1)) ?here)"
    and f2: "sameFrame n ?result1 result2"
    by blast
  have pre1: "take (length ?result1 - n) ?result1 = ?pre @ [content w]"
    using take_update_step [OF len] by simp
  have len2: "length result2 = length result" using f2 by (simp add: sameFrame_def)
  then have "Suc n \<le> length result2" using len by simp
  from Cons.IH [OF ws_ne this,
      of "solutions @ map ((@) (take (length ?result1 - n) ?result1)) ?here"]
  obtain result3 where
    r3: "generateSolutionsLoop_noprune lb (Suc n) remaining t ws
           (result2, solutions @ map ((@) (take (length ?result1 - n) ?result1)) ?here) =
         Inr (result3, (solutions @ map ((@) (take (length ?result1 - n) ?result1)) ?here)
                @ map ((@) (take (length result2 - Suc n) result2)) (wordChainsVia t n remaining ws))"
    and f3: "sameFrame (Suc n) result2 result3"
    by blast
  have f: "sameFrame (Suc n) result result3"
    using sameFrame_step [OF len f2 f3] .
  have pre2: "take (length result2 - Suc n) result2 = ?pre"
  proof -
    have "sameFrame (Suc n) result result2"
      using sameFrame_step [OF len f2 sameFrame_refl] .
    then show ?thesis by (simp add: sameFrame_def)
  qed
  have "generateSolutionsLoop_noprune lb (Suc n) remaining t (w # ws) (result, solutions) =
        generateSolutionsLoop_noprune lb (Suc n) remaining t ws
           (result2, solutions @ map ((@) (take (length ?result1 - n) ?result1)) ?here)"
    using len r2 Word_at_last [OF w_ne] by simp
  also note r3
  finally have "generateSolutionsLoop_noprune lb (Suc n) remaining t (w # ws) (result, solutions) =
      Inr (result3, solutions @ map ((@) ?pre) (wordChainsVia t n remaining (w # ws)))"
    unfolding pre1 pre2 by (simp add: chainsVia_Cons)
  with f show ?case by blast
qed

lemma generateSolutionsRec_noprune_chains:
  assumes "wordsNonempty t" and "n \<le> length result"
  shows "\<exists>result'. generateSolutionsRec_noprune lb n c remaining t (result, solutions) =
          Inr (result', solutions @ map ((@) (take (length result - n) result)) (wordChains t n c remaining))
        \<and> sameFrame n result result'"
  using assms(2)
proof (induction n arbitrary: c remaining result solutions)
  case 0
  show ?case by (simp add: sameFrame_refl generateSolutionsRec_noprune.simps)
next
  case (Suc n)
  show ?case
  proof (cases "t c")
    case None
    then show ?thesis
      by (simp add: wordsAt_def sameFrame_refl generateSolutionsRec_noprune.simps)
  next
    case (Some ws)
    then have ws: "wordsAt t c = ws" by (simp add: wordsAt_def)
    have ne: "\<forall>w \<in> set ws. content w \<noteq> []"
      using assms(1) ws unfolding wordsNonempty_def by blast
    from generateSolutionsLoop_noprune_chains [where lb = lb and t = t, OF Suc.IH ne Suc.prems]
    show ?thesis using Some ws
      by (simp add: chains_Suc generateSolutionsRec_noprune.simps del: wordChains.simps)
  qed
qed

lemma map_append_Nil: "map ((@) []) xs = xs"
  by (induction xs) simp_all

lemma threadBody_chains:
  assumes "wordsNonempty t" and "wordsCounted t"
  shows "threadBody lb n t ch = Inr (wordChains t n ch (getLetters lb))"
proof -
  have "n \<le> length (replicate n ([]::string))" by simp
  from generateSolutionsRec_chains [OF assms this, of lb ch "getLetters lb" "[]"]
  show ?thesis by (auto simp: threadBody_def map_append_Nil)
qed

lemma threadBody_noprune_chains:
  assumes "wordsNonempty t"
  shows "threadBody_noprune lb n t ch = Inr (wordChains t n ch (getLetters lb))"
proof -
  have "n \<le> length (replicate n ([]::string))" by simp
  from generateSolutionsRec_noprune_chains [OF assms this, of lb ch "getLetters lb" "[]"]
  show ?thesis by (auto simp: threadBody_noprune_def map_append_Nil)
qed

lemma chains_iff:
  "sol \<in> set (wordChains t n c remaining) \<longleftrightarrow>
     length sol = n \<and> linked t c sol \<and> remaining \<subseteq> \<Union> (set ` set sol)"
proof (induction n arbitrary: c remaining sol)
  case 0
  show ?case by auto
next
  case (Suc n)
  show ?case
  proof (cases sol)
    case Nil
    then show ?thesis by auto
  next
    case (Cons s rest)
    have "sol \<in> set (wordChains t (Suc n) c remaining) \<longleftrightarrow>
        (\<exists>w \<in> set (wordsAt t c). content w = s \<and>
           rest \<in> set (wordChains t n (last (content w)) (remaining - set (content w))))"
      unfolding Cons by auto
    also have "\<dots> \<longleftrightarrow> (\<exists>w \<in> set (wordsAt t c). content w = s \<and>
           length rest = n \<and> linked t (last s) rest \<and>
           remaining - set s \<subseteq> \<Union> (set ` set rest))"
      unfolding Suc.IH by auto
    also have "\<dots> \<longleftrightarrow> length sol = Suc n \<and> linked t c sol \<and>
           remaining \<subseteq> \<Union> (set ` set sol)"
      unfolding Cons by auto
    finally show ?thesis .
  qed
qed

lemma mset_interleave: "interleave xss out \<Longrightarrow> mset out = mset (concat xss)"
proof (induction rule: interleave.induct)
  case (interleave_done xss)
  then have "concat xss = []" by simp
  then show ?case by simp
next
  case (interleave_step i xss x xs out)
  define before where "before = take i xss"
  define after where "after = drop (Suc i) xss"
  have s1: "xss = before @ (x # xs) # after"
    unfolding before_def after_def
    using interleave_step.hyps(1,2) by (metis id_take_nth_drop)
  have s2: "xss[i := xs] = before @ xs # after"
    unfolding before_def after_def
    using interleave_step.hyps(1) by (simp add: upd_conv_take_nth_drop)
  have "mset (concat xss) = add_mset x (mset (concat (before @ xs # after)))"
    by (subst s1) simp
  with interleave_step.IH show ?case unfolding s2 by simp
qed

lemma interleave_Nil_Cons: "interleave xss out \<Longrightarrow> interleave ([] # xss) out"
proof (induction rule: interleave.induct)
  case (interleave_done xss)
  then show ?case by (intro interleave.interleave_done) simp
next
  case (interleave_step i xss x xs out)
  have "Suc i < length ([] # xss)" using interleave_step.hyps(1) by simp
  moreover have "([] # xss) ! Suc i = x # xs" using interleave_step.hyps(2) by simp
  moreover have "interleave (([] # xss)[Suc i := xs]) out"
    using interleave_step.IH by simp
  ultimately show ?case by (rule interleave.interleave_step)
qed

lemma interleave_first: "interleave xss out \<Longrightarrow> interleave (ys # xss) (ys @ out)"
proof (induction ys)
  case Nil
  then show ?case by (simp add: interleave_Nil_Cons)
next
  case (Cons y ys)
  have "0 < length ((y # ys) # xss)" by simp
  moreover have "((y # ys) # xss) ! 0 = y # ys" by simp
  moreover have "interleave (((y # ys) # xss)[0 := ys]) (ys @ out)"
    using Cons by simp
  ultimately have "interleave ((y # ys) # xss) (y # (ys @ out))"
    by (rule interleave.interleave_step)
  then show ?case by simp
qed

lemma interleave_concat: "interleave xss (concat xss)"
proof (induction xss)
  case Nil
  show ?case by (simp add: interleave_done)
next
  case (Cons ys xss)
  from interleave_first [OF this, of ys] show ?case by simp
qed

lemma mset_concat_map_cong:
  assumes "mset xs = mset ys"
  shows "mset (concat (map f xs)) = mset (concat (map f ys))"
proof -
  have "mset (concat (map f zs)) = (\<Sum>z \<in># mset zs. mset (f z))" for zs
    by (induction zs) simp_all
  with assms show ?thesis by simp
qed

lemma outs_of_threads:
  assumes "map body order = map Inr outs"
  shows "outs = map (\<lambda>ch. case body ch of Inr out \<Rightarrow> out | Inl e \<Rightarrow> []) order"
  using assms
proof (induction order arbitrary: outs)
  case Nil
  then show ?case by simp
next
  case (Cons ch order)
  then obtain out rest where "outs = out # rest" "body ch = Inr out" "map body order = map Inr rest"
    by (cases outs) auto
  with Cons.IH [of rest] show ?case by simp
qed

lemma pushedAfter_twice:
  "pushedAfter solutions (pushedAfter pushed x) = pushedAfter (solutions @ pushed) x"
  by (auto simp: pushedAfter_def split: sum.splits)

lemma generateSolutionsLoop_appends:
  assumes rec: "\<And>c remaining result solutions.
      generateSolutionsRec lb (n - 1) c remaining t (result, solutions) =
        pushedAfter solutions (generateSolutionsRec lb (n - 1) c remaining t (result, []))"
  shows "generateSolutionsLoop lb n remaining t ws (result, solutions) =
           pushedAfter solutions (generateSolutionsLoop lb n remaining t ws (result, []))"
proof (induction ws arbitrary: result solutions)
  case Nil
  show ?case by (simp add: pushedAfter_def)
next
  case (Cons w ws)
  show ?case
  proof (cases "n = 1 \<and> card remaining > nUniqueLetters w")
    case True
    then show ?thesis using Cons [of result solutions] by simp
  next
    case False
    note noprune = this
    show ?thesis
    proof (cases "0 < n \<and> n \<le> length result")
      case False
      with noprune show ?thesis by (auto simp: pushedAfter_def)
    next
      case True
      note inrange = this
      show ?thesis
      proof (cases "Word_at w (int (Word_size w) - 1)")
        case (Inl e)
        with noprune inrange show ?thesis by (auto simp: pushedAfter_def)
      next
        case (Inr c)
        let ?call = "generateSolutionsRec lb (n - 1) c (remaining - set (content w)) t
            (result[length result - n := content w], [])"
        have call: "generateSolutionsRec lb (n - 1) c (remaining - set (content w)) t
            (result[length result - n := content w], solutions) = pushedAfter solutions ?call"
          by (rule rec)
        show ?thesis
        proof (cases ?call)
          case (Inl e)
          with noprune inrange Inr call show ?thesis by (auto simp: pushedAfter_def)
        next
          case inner: (Inr st')
          obtain result' pushed where st': "st' = (result', pushed)" by (cases st')
          have l: "generateSolutionsLoop lb n remaining t (w # ws) (result, solutions) =
              generateSolutionsLoop lb n remaining t ws (result', solutions @ pushed)"
            using noprune inrange Inr call inner st' by (auto simp: pushedAfter_def)
          have r: "generateSolutionsLoop lb n remaining t (w # ws) (result, []) =
              generateSolutionsLoop lb n remaining t ws (result', pushed)"
            using noprune inrange Inr inner st' by auto
          have "generateSolutionsLoop lb n remaining t ws (result', solutions @ pushed) =
              pushedAfter (solutions @ pushed)
                (generateSolutionsLoop lb n remaining t ws (result', []))"
            by (rule Cons)
          also have "\<dots> = pushedAfter solutions
              (pushedAfter pushed (generateSolutionsLoop lb n remaining t ws (result', [])))"
            by (simp only: pushedAfter_twice)
          also have "pushedAfter pushed (generateSolutionsLoop lb n remaining t ws (result', [])) =
              generateSolutionsLoop lb n remaining t ws (result', pushed)"
            by (rule Cons [symmetric])
          finally show ?thesis unfolding l r .
        qed
      qed
    qed
  qed
qed

lemma generateSolutionsRec_appends:
  "generateSolutionsRec lb n c remaining t (result, solutions) =
     pushedAfter solutions (generateSolutionsRec lb n c remaining t (result, []))"
proof (induction n arbitrary: c remaining result solutions)
  case 0
  show ?case by (simp add: generateSolutionsRec.simps pushedAfter_def)
next
  case (Suc n)
  show ?case
  proof (cases "t c")
    case None
    then show ?thesis by (simp add: generateSolutionsRec.simps pushedAfter_def)
  next
    case (Some ws)
    have rec: "generateSolutionsRec lb (Suc n - 1) c remaining t (result, solutions) =
        pushedAfter solutions (generateSolutionsRec lb (Suc n - 1) c remaining t (result, []))"
      for c remaining result solutions
      unfolding diff_Suc_1 by (rule Suc.IH)
    have "generateSolutionsLoop lb (Suc n) remaining t ws (result, solutions) =
        pushedAfter solutions (generateSolutionsLoop lb (Suc n) remaining t ws (result, []))"
      by (rule generateSolutionsLoop_appends [OF rec])
    with Some show ?thesis by (simp add: generateSolutionsRec.simps)
  qed
qed

section \<open>No exit from the search\<close>





section \<open>The solutions\<close>

lemma canMakeWord_letters: "canMakeWord lb s \<Longrightarrow> set s \<subseteq> letters lb"
  by (auto simp: canMakeWord_chars contains_def)

lemma linked_built:
  assumes "linked (buildFilteredWordList dict lb Map.empty) c sol"
  shows "(\<forall>s \<in> set sol. canMakeWord lb s) \<and>
         (\<forall>i. Suc i < length sol \<longrightarrow> last (sol ! i) = sol ! Suc i ! 0) \<and>
         (sol \<noteq> [] \<longrightarrow> sol ! 0 ! 0 = c)"
  using assms
proof (induction sol arbitrary: c)
  case Nil
  show ?case by simp
next
  case (Cons s rest)
  let ?t = "buildFilteredWordList dict lb Map.empty"
  from Cons.prems obtain w where w: "w \<in> set (wordsAt ?t c)" "content w = s"
    and rest: "linked ?t (last s) rest"
    by auto
  from built_table_words(2,3) [OF w(1)] w(2) have s: "canMakeWord lb s" "s ! 0 = c"
    by simp_all
  from Cons.IH [OF rest] have valid: "\<forall>s \<in> set rest. canMakeWord lb s"
    and chain: "\<forall>i. Suc i < length rest \<longrightarrow> last (rest ! i) = rest ! Suc i ! 0"
    and first: "rest \<noteq> [] \<longrightarrow> rest ! 0 ! 0 = last s"
    by blast+
  have "last ((s # rest) ! i) = (s # rest) ! Suc i ! 0" if "Suc i < length (s # rest)" for i
  proof (cases i)
    case 0
    with that first show ?thesis by auto
  next
    case (Suc j)
    with that chain show ?thesis by simp
  qed
  with s valid show ?case by simp
qed

lemma set_interleave: "interleave xss out \<Longrightarrow> set out = \<Union> (set ` set xss)"
proof -
  assume "interleave xss out"
  from mset_interleave [OF this] have "set_mset (mset out) = set_mset (mset (concat xss))"
    by simp
  then show ?thesis by simp
qed

lemma pushed_by_some_thread:
  assumes "map body order = map Inr outs" and "interleave outs merged" and "sol \<in> set merged"
  shows "\<exists>ch \<in> set order. \<exists>out. body ch = Inr out \<and> sol \<in> set out"
proof -
  from set_interleave [OF assms(2)] assms(3) obtain out where out: "out \<in> set outs" "sol \<in> set out"
    by blast
  then obtain i where i: "i < length outs" "outs ! i = out" by (auto simp: in_set_conv_nth)
  from assms(1) have len: "length order = length outs" by (metis length_map)
  from assms(1) have "map body order ! i = map Inr outs ! i" by simp
  with i len have "body (order ! i) = Inr out" by simp
  moreover have "order ! i \<in> set order" using i len by simp
  ultimately show ?thesis using out(2) by blast
qed

text \<open>
  Claim C1. Take a table with the words of the table that \<open>buildFilteredWordList\<close>
  builds for the box, in whatever order they are iterated, and any run of
  \<open>generateSolutions\<close> with \<open>nWords\<close>. The run only appends to \<open>solutions\<close>, and every
  solution it appends has exactly \<open>nWords\<close> words, all of them words that \<open>canMakeWord\<close>
  accepts, each word after the first starts with the last letter of the word before, and
  the letters of its words together are exactly the letters of the box. A call with \<open>nWords = 0\<close> appends \<open>result\<close> if \<open>remaining\<close> is
  empty and nothing otherwise, and no other call appends by itself; so the thread that
  starts at the letter \<open>ch\<close> appends exactly the chains of \<open>nWords\<close> words of the table from
  \<open>ch\<close> on after which no letter of the box is left uncovered.
\<close>

theorem generateSolutions_solutions_valid:
  assumes "sameWords t (buildFilteredWordList dict lb Map.empty)"
    and "generateSolutions lb nWords t solutions solutions'"
  shows "(\<exists>new. solutions' = solutions @ new \<and>
            (\<forall>sol \<in> set new.
               length sol = nWords \<and>
               (\<forall>s \<in> set sol. canMakeWord lb s) \<and>
               (\<forall>i. Suc i < length sol \<longrightarrow> last (sol ! i) = sol ! Suc i ! 0) \<and>
               \<Union> (set ` set sol) = getLetters lb)) \<and>
         generateSolutionsRec lb 0 c remaining t (result, sols) =
           Inr (result, if remaining = {} then sols @ [result] else sols) \<and>
         (\<exists>pushed. threadBody lb nWords t ch = Inr pushed \<and>
            set pushed = {sol. length sol = nWords \<and> linked t ch sol \<and>
                               getLetters lb - \<Union> (set ` set sol) = {}})"
proof -
  let ?built = "buildFilteredWordList dict lb Map.empty"
  have body: "threadBody lb nWords t ch = Inr (wordChains t nWords ch (getLetters lb))" for ch
    by (rule threadBody_chains [OF sameWords_built [OF assms(1)]])
  from assms(2) obtain order outs merged where order: "set order = getLetters lb"
    and outs: "map (threadBody lb nWords t) order = map Inr outs"
    and merged: "interleave outs merged" and new: "solutions' = solutions @ merged"
    by (auto elim: generateSolutions.cases)
  have "length sol = nWords \<and>
        (\<forall>s \<in> set sol. canMakeWord lb s) \<and>
        (\<forall>i. Suc i < length sol \<longrightarrow> last (sol ! i) = sol ! Suc i ! 0) \<and>
        \<Union> (set ` set sol) = getLetters lb" if "sol \<in> set merged" for sol
  proof -
    from pushed_by_some_thread [OF outs merged that] body
    obtain ch where "sol \<in> set (wordChains t nWords ch (getLetters lb))" by auto
    then have len: "length sol = nWords" and "linked t ch sol"
      and cover: "getLetters lb \<subseteq> \<Union> (set ` set sol)"
      unfolding chains_iff by blast+
    then have l: "linked ?built ch sol"
      using linked_sameWords [OF assms(1)] by blast
    from linked_built [OF l] have valid: "\<forall>s \<in> set sol. canMakeWord lb s"
      and chain: "\<forall>i. Suc i < length sol \<longrightarrow> last (sol ! i) = sol ! Suc i ! 0"
      by blast+
    from valid have "\<Union> (set ` set sol) \<subseteq> getLetters lb"
      using canMakeWord_letters by (fastforce simp: getLetters_def)
    with cover len chain valid show ?thesis by blast
  qed
  with new have a: "\<exists>new. solutions' = solutions @ new \<and>
            (\<forall>sol \<in> set new.
               length sol = nWords \<and>
               (\<forall>s \<in> set sol. canMakeWord lb s) \<and>
               (\<forall>i. Suc i < length sol \<longrightarrow> last (sol ! i) = sol ! Suc i ! 0) \<and>
               \<Union> (set ` set sol) = getLetters lb)"
    by blast
  have b: "generateSolutionsRec lb 0 c remaining t (result, sols) =
           Inr (result, if remaining = {} then sols @ [result] else sols)"
    by (simp add: generateSolutionsRec.simps)
  have "set (wordChains t nWords ch (getLetters lb)) =
          {sol. length sol = nWords \<and> linked t ch sol \<and>
                getLetters lb - \<Union> (set ` set sol) = {}}"
    using chains_iff [of _ t nWords ch "getLetters lb"] by auto
  with body have c: "\<exists>pushed. threadBody lb nWords t ch = Inr pushed \<and>
            set pushed = {sol. length sol = nWords \<and> linked t ch sol \<and>
                               getLetters lb - \<Union> (set ` set sol) = {}}"
    by blast
  from a b c show ?thesis by blast
qed

lemma exampleBox_ctor: "LetterBox_ctor ''ABCDEFGH'' = Inr exampleBox"
  by (simp add: LetterBox_ctor_closed exampleBox_def wallsOf_def kNumWalls_def upt_rec)

lemma exampleBox_letters: "set ''ABCDEFGH'' = getLetters exampleBox"
  by (auto simp: getLetters_def exampleBox_def boxOf_def)

lemma example_threads:
  "map (threadBody exampleBox 2 exampleTable) ''ABCDEFGH'' =
     map Inr [[[''ACEG'', ''GBDFH''], [''ACEGBDFH'', ''HAC'']], [], [], [],
              [[''EGA'', ''ACEGBDFH'']], [], [], []]"
  by code_simp

lemma example_threads_rev:
  "map (threadBody exampleBox 2 exampleTable) ''HGFEDCBA'' =
     map Inr [[], [], [], [[''EGA'', ''ACEGBDFH'']], [], [], [],
              [[''ACEG'', ''GBDFH''], [''ACEGBDFH'', ''HAC'']]]"
  by code_simp

lemma example_run:
  "generateSolutions exampleBox 2 exampleTable []
     [[''ACEG'', ''GBDFH''], [''ACEGBDFH'', ''HAC''], [''EGA'', ''ACEGBDFH'']]"
proof -
  have "distinct ''ABCDEFGH''" by simp
  from generateSolutions_run [OF exampleBox_letters this example_threads interleave_concat, of "[]"]
  show ?thesis by simp
qed

lemma example_run_rev:
  "generateSolutions exampleBox 2 exampleTable []
     [[''EGA'', ''ACEGBDFH''], [''ACEG'', ''GBDFH''], [''ACEGBDFH'', ''HAC'']]"
proof -
  have d: "distinct ''HGFEDCBA''" by simp
  have "set ''HGFEDCBA'' = set ''ABCDEFGH''" by auto
  then have s: "set ''HGFEDCBA'' = getLetters exampleBox"
    unfolding exampleBox_letters .
  from generateSolutions_run [OF s d example_threads_rev interleave_concat, of "[]"]
  show ?thesis by simp
qed

theorem generateSolutions_solutions_valid_witness:
  "LetterBox_ctor ''ABCDEFGH'' = Inr exampleBox \<and>
   sameWords exampleTable (buildFilteredWordList exampleDict exampleBox Map.empty) \<and>
   generateSolutions exampleBox 2 exampleTable []
     [[''ACEG'', ''GBDFH''], [''ACEGBDFH'', ''HAC''], [''EGA'', ''ACEGBDFH'']] \<and>
   length [''ACEG'', ''GBDFH''] = 2 \<and>
   last ''ACEG'' = ''GBDFH'' ! 0 \<and>
   \<Union> (set ` set [''ACEG'', ''GBDFH'']) = getLetters exampleBox \<and>
   \<Union> (set ` set [''EGA'', ''ACEGBDFH'']) = getLetters exampleBox"
proof -
  let ?out = "[[''ACEG'', ''GBDFH''], [''ACEGBDFH'', ''HAC''], [''EGA'', ''ACEGBDFH'']]"
  have same: "sameWords exampleTable (buildFilteredWordList exampleDict exampleBox Map.empty)"
    by (simp add: exampleTable_def sameWords_refl)
  from generateSolutions_solutions_valid [OF same example_run]
  have "\<forall>sol \<in> set ?out. length sol = 2 \<and>
         (\<forall>i. Suc i < length sol \<longrightarrow> last (sol ! i) = sol ! Suc i ! 0) \<and>
         \<Union> (set ` set sol) = getLetters exampleBox"
    by simp
  then have "length [''ACEG'', ''GBDFH''] = 2 \<and>
     (\<forall>i. Suc i < length [''ACEG'', ''GBDFH''] \<longrightarrow>
        last ([''ACEG'', ''GBDFH''] ! i) = [''ACEG'', ''GBDFH''] ! Suc i ! 0) \<and>
     \<Union> (set ` set [''ACEG'', ''GBDFH'']) = getLetters exampleBox \<and>
     \<Union> (set ` set [''EGA'', ''ACEGBDFH'']) = getLetters exampleBox"
    by simp
  then have "length [''ACEG'', ''GBDFH''] = 2 \<and> last ''ACEG'' = ''GBDFH'' ! 0 \<and>
     \<Union> (set ` set [''ACEG'', ''GBDFH'']) = getLetters exampleBox \<and>
     \<Union> (set ` set [''EGA'', ''ACEGBDFH'']) = getLetters exampleBox"
    by (metis One_nat_def Suc_1 length_Cons lessI list.size(3) nth_Cons_0 nth_Cons_Suc)
  with same example_run exampleBox_ctor show ?thesis by blast
qed

section \<open>Pruning and the order of the threads\<close>

lemma example_table_ok: "wordsNonempty exampleTable \<and> wordsCounted exampleTable"
  unfolding exampleTable_def using built_table_nonempty built_table_counted by blast

text \<open>
  Claim C3. Let the table hold no empty word and let every word carry the number of
  its distinct letters, as every word made by \<open>Word_ctor\<close> does and so every table built
  by \<open>buildFilteredWordList\<close>. From every state in which \<^verbatim>\<open>result\<close> has room for the words
  still to choose, the search with the test of the last word and the search without it
  both return and append the same solutions, in the same order. Every thread pushes the
  same solutions with and without the test, and the possible results of
  \<open>generateSolutions\<close> are the same with and without it.
\<close>

theorem prune_keeps_solutions:
  assumes "wordsNonempty t" and "wordsCounted t"
  shows "(nWords \<le> length result \<longrightarrow>
            (\<exists>result1 result2 pushed.
               generateSolutionsRec lb nWords c remaining t (result, solutions) =
                 Inr (result1, solutions @ pushed) \<and>
               generateSolutionsRec_noprune lb nWords c remaining t (result, solutions) =
                 Inr (result2, solutions @ pushed))) \<and>
         threadBody lb nWords t ch = threadBody_noprune lb nWords t ch \<and>
         (generateSolutions lb nWords t solutions solutions' \<longleftrightarrow>
            generateSolutions_noprune lb nWords t solutions solutions')"
proof -
  have a: "\<exists>result1 result2 pushed.
               generateSolutionsRec lb nWords c remaining t (result, solutions) =
                 Inr (result1, solutions @ pushed) \<and>
               generateSolutionsRec_noprune lb nWords c remaining t (result, solutions) =
                 Inr (result2, solutions @ pushed)"
    if len: "nWords \<le> length result"
    using generateSolutionsRec_chains [OF assms len, of lb c remaining solutions]
      generateSolutionsRec_noprune_chains [OF assms(1) len, of lb c remaining solutions]
    by blast
  have b: "threadBody lb nWords t ch = threadBody_noprune lb nWords t ch" for ch
    by (simp add: threadBody_chains [OF assms] threadBody_noprune_chains [OF assms(1)])
  then have same: "threadBody lb nWords t = threadBody_noprune lb nWords t" by (rule ext)
  have c: "generateSolutions lb nWords t solutions solutions' \<longleftrightarrow>
            generateSolutions_noprune lb nWords t solutions solutions'"
  proof
    assume "generateSolutions lb nWords t solutions solutions'"
    then obtain order outs merged where o: "set order = getLetters lb" "distinct order"
      and th: "map (threadBody lb nWords t) order = map Inr outs"
      and i: "interleave outs merged" and r: "solutions' = solutions @ merged"
      by (auto elim: generateSolutions.cases)
    from th have "map (threadBody_noprune lb nWords t) order = map Inr outs"
      unfolding same .
    from generateSolutions_noprune_run [OF o this i]
    show "generateSolutions_noprune lb nWords t solutions solutions'" unfolding r .
  next
    assume "generateSolutions_noprune lb nWords t solutions solutions'"
    then obtain order outs merged where o: "set order = getLetters lb" "distinct order"
      and th: "map (threadBody_noprune lb nWords t) order = map Inr outs"
      and i: "interleave outs merged" and r: "solutions' = solutions @ merged"
      by (auto elim: generateSolutions_noprune.cases)
    from th have "map (threadBody lb nWords t) order = map Inr outs"
      unfolding same .
    from generateSolutions_run [OF o this i]
    show "generateSolutions lb nWords t solutions solutions'" unfolding r .
  qed
  from a b c show ?thesis by blast
qed

theorem prune_keeps_solutions_witness:
  "wordsNonempty exampleTable \<and> wordsCounted exampleTable \<and>
   (1::nat) \<le> length [''ACEG''] \<and>
   generateSolutionsRec exampleBox 1 CHR ''A'' (set ''ABCDEFGH'') exampleTable
     ([''ACEG''], []) = Inr ([''ACEGBDFH''], [[''ACEGBDFH'']]) \<and>
   (\<exists>result2. generateSolutionsRec_noprune exampleBox 1 CHR ''A'' (set ''ABCDEFGH'') exampleTable
     ([''ACEG''], []) = Inr (result2, [[''ACEGBDFH'']])) \<and>
   generateSolutions_noprune exampleBox 2 exampleTable []
     [[''ACEG'', ''GBDFH''], [''ACEGBDFH'', ''HAC''], [''EGA'', ''ACEGBDFH'']]"
proof -
  note ok = example_table_ok
  have len: "(1::nat) \<le> length [''ACEG'']" by simp
  have pruned: "generateSolutionsRec exampleBox 1 CHR ''A'' (set ''ABCDEFGH'') exampleTable
     ([''ACEG''], []) = Inr ([''ACEGBDFH''], [[''ACEGBDFH'']])"
    by code_simp
  note w = prune_keeps_solutions [of exampleTable, OF conjunct1 [OF ok] conjunct2 [OF ok]]
  from w [of 1 "[''ACEG'']" exampleBox "CHR ''A''" "set ''ABCDEFGH''" "[]"] len pruned
  have "\<exists>result2. generateSolutionsRec_noprune exampleBox 1 CHR ''A'' (set ''ABCDEFGH'')
      exampleTable ([''ACEG''], []) = Inr (result2, [[''ACEGBDFH'']])"
    by auto
  moreover from w [of 2 _ exampleBox _ _ "[]"] example_run
  have "generateSolutions_noprune exampleBox 2 exampleTable []
     [[''ACEG'', ''GBDFH''], [''ACEGBDFH'', ''HAC''], [''EGA'', ''ACEGBDFH'']]"
    by blast
  ultimately show ?thesis using ok len pruned by blast
qed

text \<open>
  Claim C8. Two runs of \<open>generateSolutions\<close> on the same box, the same table (with its
  order of the words) and the same \<open>nWords\<close>, from the same \<open>solutions\<close>, may interleave
  the threads differently and start them in a different order; both end with the same
  solutions, each as often in one run as in the other. Only their order can differ.
\<close>

theorem generateSolutions_same_solutions:
  assumes "generateSolutions lb nWords t solutions out1"
    and "generateSolutions lb nWords t solutions out2"
  shows "set out1 = set out2 \<and> mset out1 = mset out2"
proof -
  define pushes where
    "pushes = (\<lambda>ch. case threadBody lb nWords t ch of Inr out \<Rightarrow> out | Inl e \<Rightarrow> [])"
  from assms(1) obtain order1 outs1 merged1 where o1: "set order1 = getLetters lb"
    "distinct order1" and t1: "map (threadBody lb nWords t) order1 = map Inr outs1"
    and i1: "interleave outs1 merged1" and r1: "out1 = solutions @ merged1"
    by (auto elim: generateSolutions.cases)
  from assms(2) obtain order2 outs2 merged2 where o2: "set order2 = getLetters lb"
    "distinct order2" and t2: "map (threadBody lb nWords t) order2 = map Inr outs2"
    and i2: "interleave outs2 merged2" and r2: "out2 = solutions @ merged2"
    by (auto elim: generateSolutions.cases)
  have "mset order1 = mset order2"
    using o1 o2 by (simp add: set_eq_iff_mset_eq_distinct [symmetric])
  then have "mset (concat (map pushes order1)) = mset (concat (map pushes order2))"
    by (rule mset_concat_map_cong)
  moreover have "outs1 = map pushes order1" "outs2 = map pushes order2"
    unfolding pushes_def using outs_of_threads [OF t1] outs_of_threads [OF t2] by simp_all
  ultimately have "mset merged1 = mset merged2"
    using mset_interleave [OF i1] mset_interleave [OF i2] by simp
  then have m: "mset out1 = mset out2" unfolding r1 r2 by simp
  then have "set_mset (mset out1) = set_mset (mset out2)" by simp
  then have "set out1 = set out2" by simp
  with m show ?thesis by blast
qed

theorem generateSolutions_same_solutions_witness:
  "generateSolutions exampleBox 2 exampleTable []
     [[''ACEG'', ''GBDFH''], [''ACEGBDFH'', ''HAC''], [''EGA'', ''ACEGBDFH'']] \<and>
   generateSolutions exampleBox 2 exampleTable []
     [[''EGA'', ''ACEGBDFH''], [''ACEG'', ''GBDFH''], [''ACEGBDFH'', ''HAC'']] \<and>
   [[''ACEG'', ''GBDFH''], [''ACEGBDFH'', ''HAC''], [''EGA'', ''ACEGBDFH'']] \<noteq>
     [[''EGA'', ''ACEGBDFH''], [''ACEG'', ''GBDFH''], [''ACEGBDFH'', ''HAC'']] \<and>
   set [[''ACEG'', ''GBDFH''], [''ACEGBDFH'', ''HAC''], [''EGA'', ''ACEGBDFH'']] =
     set [[''EGA'', ''ACEGBDFH''], [''ACEG'', ''GBDFH''], [''ACEGBDFH'', ''HAC'']]"
proof -
  have "[[''ACEG'', ''GBDFH''], [''ACEGBDFH'', ''HAC''], [''EGA'', ''ACEGBDFH'']] \<noteq>
     [[''EGA'', ''ACEGBDFH''], [''ACEG'', ''GBDFH''], [''ACEGBDFH'', ''HAC'']]"
    by simp
  with generateSolutions_same_solutions [OF example_run example_run_rev]
    example_run example_run_rev
  show ?thesis by blast
qed

end
